theory Spec2Isabelle
  imports Main
begin

section \<open>VLVector: a vector with an inline buffer and a heap buffer\<close>

text \<open>
  A shallow embedding of the class template \<^verbatim>\<open>VLVector<T, StaticCapacity>\<close> of
  \<^verbatim>\<open>VLVector.hpp\<close>. The template parameter \<^verbatim>\<open>StaticCapacity\<close> is the argument \<open>N\<close> of
  the functions below, \<^verbatim>\<open>sizeof(T)\<close> is the argument \<open>sz\<close> and the value-initialised element
  \<^verbatim>\<open>T()\<close> is the argument \<open>d\<close>. Iterators are offsets from \<^verbatim>\<open>data()\<close>; an element access
  outside the array that \<^verbatim>\<open>_curData\<close> points to, an access through a released array and a
  \<^verbatim>\<open>delete[]\<close> of anything but a live heap array are undefined behaviour in C++, which the
  model reports as the error \<open>UndefinedBehaviour\<close>. Allocation itself always succeeds.
  The inline array of a new container is filled with \<open>d\<close> (for a scalar \<^verbatim>\<open>T\<close> the C++
  array holds indeterminate values until they are written).
\<close>

subsection \<open>Data\<close>

datatype error = OutOfRange | UndefinedBehaviour

text \<open>What \<^verbatim>\<open>_curData\<close> points to: the inline array, a live heap array (owned by this
  container alone, so its contents are kept with the pointer) or a released heap array.\<close>

datatype 'a buffer = StatData | Heap "'a list" | Dangling

record 'a VLVector =
  statData :: "'a list"
  dynamic :: bool
  vsize :: nat
  vcapacity :: nat
  curData :: "'a buffer"

text \<open>The iterator that \<^verbatim>\<open>erase\<close> returns is computed before the container shrinks: it
  points at an offset of the active array, or, after \<^verbatim>\<open>_decreaseCapacity\<close> has run, at an
  offset of the heap array that was just released.\<close>

datatype iterator = Active nat | Released nat

text \<open>\<^verbatim>\<open>size_t\<close> is an unsigned 64-bit integer: every result of its arithmetic is reduced
  modulo \<open>2 ^ 64\<close>.\<close>

definition size_t :: "int \<Rightarrow> nat" where
  "size_t i = nat (i mod 2 ^ 64)"

definition INCREASE_INC :: int where
  "INCREASE_INC = 1"

subsection \<open>Element access\<close>

definition data :: "'a VLVector \<Rightarrow> 'a list" where
  "data v = (case curData v of StatData \<Rightarrow> statData v | Heap h \<Rightarrow> h | Dangling \<Rightarrow> [])"

definition store :: "'a VLVector \<Rightarrow> 'a list \<Rightarrow> 'a VLVector" where
  "store v l = (case curData v of
      StatData \<Rightarrow> v\<lparr>statData := l\<rparr>
    | Heap h \<Rightarrow> v\<lparr>curData := Heap l\<rparr>
    | Dangling \<Rightarrow> v)"

text \<open>\<^verbatim>\<open>data()[i]\<close> read and written.\<close>

definition rd :: "'a VLVector \<Rightarrow> nat \<Rightarrow> error + 'a" where
  "rd v i = (if i < length (data v) then Inr (data v ! i) else Inl UndefinedBehaviour)"

definition wr :: "'a VLVector \<Rightarrow> nat \<Rightarrow> 'a \<Rightarrow> error + 'a VLVector" where
  "wr v i x = (if i < length (data v) then Inr (store v ((data v)[i := x]))
               else Inl UndefinedBehaviour)"

text \<open>\<^verbatim>\<open>new T[n]()\<close> and \<^verbatim>\<open>delete[] _curData\<close>.\<close>

definition new_array :: "nat \<Rightarrow> 'a \<Rightarrow> 'a list" where
  "new_array n d = replicate n d"

definition delete_array :: "'a buffer \<Rightarrow> error + unit" where
  "delete_array p = (case p of Heap h \<Rightarrow> Inr () | _ \<Rightarrow> Inl UndefinedBehaviour)"

subsection \<open>Growing and shrinking\<close>

text \<open>The loop of \<^verbatim>\<open>_increaseCapacity\<close>: \<^verbatim>\<open>for (i = 0; i < _size; ++i) temp[i] = data()[i]\<close>.\<close>

function copy_loop :: "'a VLVector \<Rightarrow> nat \<Rightarrow> 'a list \<Rightarrow> error + 'a list" where
  "copy_loop v i temp =
     (if i < vsize v then
        (case rd v i of
           Inl e \<Rightarrow> Inl e
         | Inr x \<Rightarrow> if i < length temp then copy_loop v (i + 1) (temp[i := x])
                    else Inl UndefinedBehaviour)
      else Inr temp)"
  by pat_completeness auto
termination
  by (relation "measure (\<lambda>(v, i, temp). vsize v - i)") auto

declare copy_loop.simps [simp del]

definition increaseCapacity :: "nat \<Rightarrow> 'a \<Rightarrow> 'a VLVector \<Rightarrow> error + 'a VLVector" where
  "increaseCapacity sz d v =
     (let c = size_t (int (size_t (int (vsize v) + INCREASE_INC)) * 3) div 2;
          v1 = v\<lparr>vcapacity := c\<rparr>
      in case copy_loop v1 0 (new_array (size_t (int sz * int c)) d) of
           Inl e \<Rightarrow> Inl e
         | Inr temp \<Rightarrow>
             (if dynamic v1 then
                (case delete_array (curData v1) of
                   Inl e \<Rightarrow> Inl e
                 | Inr u \<Rightarrow> Inr (v1\<lparr>curData := Heap temp, dynamic := True\<rparr>))
              else Inr (v1\<lparr>curData := Heap temp, dynamic := True\<rparr>)))"

text \<open>The loop of \<^verbatim>\<open>_decreaseCapacity\<close>:
  \<^verbatim>\<open>for (idx = 0; idx < _size; ++idx) _statData[idx] = _curData[idx]\<close>.\<close>

function stat_loop :: "'a VLVector \<Rightarrow> nat \<Rightarrow> error + 'a VLVector" where
  "stat_loop v idx =
     (if idx < vsize v then
        (case rd v idx of
           Inl e \<Rightarrow> Inl e
         | Inr x \<Rightarrow> if idx < length (statData v)
                    then stat_loop (v\<lparr>statData := (statData v)[idx := x]\<rparr>) (idx + 1)
                    else Inl UndefinedBehaviour)
      else Inr v)"
  by pat_completeness auto
termination
  by (relation "measure (\<lambda>(v, idx). vsize v - idx)") auto

declare stat_loop.simps [simp del]

definition decreaseCapacity :: "nat \<Rightarrow> 'a VLVector \<Rightarrow> error + 'a VLVector" where
  "decreaseCapacity N v =
     (case stat_loop v 0 of
        Inl e \<Rightarrow> Inl e
      | Inr v1 \<Rightarrow>
          (case delete_array (curData v1) of
             Inl e \<Rightarrow> Inl e
           | Inr u \<Rightarrow> Inr (v1\<lparr>curData := StatData, vcapacity := N, dynamic := False\<rparr>)))"

subsection \<open>Construction, push_back and pop_back\<close>

definition VLVector :: "nat \<Rightarrow> 'a \<Rightarrow> 'a VLVector" where
  "VLVector N d = \<lparr>statData = replicate N d, dynamic = False, vsize = 0, vcapacity = N,
                   curData = StatData\<rparr>"

definition push_back :: "nat \<Rightarrow> 'a \<Rightarrow> 'a VLVector \<Rightarrow> 'a \<Rightarrow> error + 'a VLVector" where
  "push_back sz d v toAdd =
     (case (if vsize v = vcapacity v then increaseCapacity sz d v else Inr v) of
        Inl e \<Rightarrow> Inl e
      | Inr v1 \<Rightarrow>
          (case wr v1 (vsize v1) toAdd of
             Inl e \<Rightarrow> Inl e
           | Inr v2 \<Rightarrow> Inr (v2\<lparr>vsize := size_t (int (vsize v2) + 1)\<rparr>)))"

text \<open>The range constructor: \<^verbatim>\<open>while (first != last) push_back(*(first++))\<close>, the source range
  being the list of its elements.\<close>

fun push_all :: "nat \<Rightarrow> 'a \<Rightarrow> 'a VLVector \<Rightarrow> 'a list \<Rightarrow> error + 'a VLVector" where
  "push_all sz d v [] = Inr v"
| "push_all sz d v (x # xs) =
     (case push_back sz d v x of Inl e \<Rightarrow> Inl e | Inr v1 \<Rightarrow> push_all sz d v1 xs)"

definition VLVector_range :: "nat \<Rightarrow> nat \<Rightarrow> 'a \<Rightarrow> 'a list \<Rightarrow> error + 'a VLVector" where
  "VLVector_range N sz d xs = push_all sz d (VLVector N d) xs"

definition pop_back :: "nat \<Rightarrow> 'a VLVector \<Rightarrow> error + 'a VLVector" where
  "pop_back N v =
     (let v1 = v\<lparr>vsize := size_t (int (vsize v) - 1)\<rparr>
      in if vsize v1 \<le> N \<and> dynamic v1 then decreaseCapacity N v1 else Inr v1)"

subsection \<open>Single-element insert and erase\<close>

text \<open>The loop of \<^verbatim>\<open>insert(iter, toAdd)\<close>:
  \<^verbatim>\<open>while (toCopy-- != (cbegin() + inPlc)) { *(copyTo--) = *toCopy; }\<close>.
  Both iterators start at \<^verbatim>\<open>end()\<close>; \<open>toCopy\<close> is decremented by the test itself, before the
  body reads through it. An iterator that would step in front of \<^verbatim>\<open>data()\<close> is reported as
  undefined behaviour. The result carries \<open>copyTo\<close> as the loop leaves it.\<close>

function shift_right :: "'a VLVector \<Rightarrow> nat \<Rightarrow> nat \<Rightarrow> nat \<Rightarrow> error + ('a VLVector \<times> nat)" where
  "shift_right v inPlc toCopy copyTo =
     (if toCopy \<noteq> inPlc then
        (if toCopy = 0 \<or> copyTo = 0 then Inl UndefinedBehaviour
         else (case rd v (toCopy - 1) of
                 Inl e \<Rightarrow> Inl e
               | Inr x \<Rightarrow>
                   (case wr v copyTo x of
                      Inl e \<Rightarrow> Inl e
                    | Inr v1 \<Rightarrow> shift_right v1 inPlc (toCopy - 1) (copyTo - 1))))
      else Inr (v, copyTo))"
  by pat_completeness auto
termination
  by (relation "measure (\<lambda>(v, inPlc, toCopy, copyTo). toCopy)") auto

declare shift_right.simps [simp del]

definition insert_single :: "nat \<Rightarrow> 'a \<Rightarrow> 'a VLVector \<Rightarrow> nat \<Rightarrow> 'a \<Rightarrow> error + ('a VLVector \<times> nat)" where
  "insert_single sz d v iter toAdd =
     (let inPlc = iter
      in case (if vsize v = vcapacity v then increaseCapacity sz d v else Inr v) of
           Inl e \<Rightarrow> Inl e
         | Inr v1 \<Rightarrow>
             (case shift_right v1 inPlc (vsize v1) (vsize v1) of
                Inl e \<Rightarrow> Inl e
              | Inr (v2, copyTo) \<Rightarrow>
                  (case wr v2 copyTo toAdd of
                     Inl e \<Rightarrow> Inl e
                   | Inr v3 \<Rightarrow> Inr (v3\<lparr>vsize := size_t (int (vsize v3) + 1)\<rparr>, copyTo))))"

text \<open>\<^verbatim>\<open>std::copy(first, last, out)\<close> inside the container's own array. A reversed range
  is outside the precondition of \<^verbatim>\<open>std::copy\<close>.\<close>

function copy_within :: "'a VLVector \<Rightarrow> nat \<Rightarrow> nat \<Rightarrow> nat \<Rightarrow> error + 'a VLVector" where
  "copy_within v first lst out =
     (if first = lst then Inr v
      else if lst < first then Inl UndefinedBehaviour
      else (case rd v first of
              Inl e \<Rightarrow> Inl e
            | Inr x \<Rightarrow>
                (case wr v out x of
                   Inl e \<Rightarrow> Inl e
                 | Inr v1 \<Rightarrow> copy_within v1 (first + 1) lst (out + 1))))"
  by pat_completeness auto
termination
  by (relation "measure (\<lambda>(v, first, lst, out). lst - first)") auto

declare copy_within.simps [simp del]

text \<open>\<^verbatim>\<open>erase(iter)\<close>. Its first loop, \<^verbatim>\<open>while (insTo != iter) ++insTo\<close> from \<^verbatim>\<open>begin()\<close>,
  leaves \<open>insTo\<close> at the offset of \<open>iter\<close>. Both forms of \<^verbatim>\<open>erase\<close> return the iterator they
  took before the shrinking test.\<close>

definition erase :: "nat \<Rightarrow> 'a VLVector \<Rightarrow> nat \<Rightarrow> error + ('a VLVector \<times> iterator)" where
  "erase N v iter =
     (let insTo = iter; first = insTo + 1
      in case copy_within v first (vsize v) insTo of
           Inl e \<Rightarrow> Inl e
         | Inr v1 \<Rightarrow>
             (let v2 = v1\<lparr>vsize := size_t (int (vsize v1) - 1)\<rparr>
              in if vsize v2 \<le> N \<and> dynamic v2
                 then (case decreaseCapacity N v2 of
                         Inl e \<Rightarrow> Inl e
                       | Inr v3 \<Rightarrow> Inr (v3, Released insTo))
                 else Inr (v2, Active insTo)))"

definition erase_range ::
  "nat \<Rightarrow> 'a VLVector \<Rightarrow> nat \<Rightarrow> nat \<Rightarrow> error + ('a VLVector \<times> iterator)" where
  "erase_range N v first lst =
     (let copyTo = first
      in case copy_within v lst (vsize v) copyTo of
           Inl e \<Rightarrow> Inl e
         | Inr v1 \<Rightarrow>
             (let v2 = v1\<lparr>vsize := size_t (int (vsize v1) - (int lst - int first))\<rparr>
              in if vsize v2 \<le> N \<and> dynamic v2
                 then (case decreaseCapacity N v2 of
                         Inl e \<Rightarrow> Inl e
                       | Inr v3 \<Rightarrow> Inr (v3, Released copyTo))
                 else Inr (v2, Active copyTo)))"

definition clear :: "'a VLVector \<Rightarrow> error + 'a VLVector" where
  "clear v =
     (if dynamic v then
        (case delete_array (curData v) of
           Inl e \<Rightarrow> Inl e
         | Inr u \<Rightarrow> Inr (v\<lparr>curData := StatData, dynamic := False, vsize := 0\<rparr>))
      else Inr (v\<lparr>vsize := 0\<rparr>))"

subsection \<open>Range insert and assignment\<close>

text \<open>The first loop of the range insert:
  \<^verbatim>\<open>while (curPlc != cend()) after.push_back(*(curPlc++))\<close>.\<close>

function save_after ::
  "nat \<Rightarrow> 'a \<Rightarrow> 'a VLVector \<Rightarrow> nat \<Rightarrow> 'a VLVector \<Rightarrow> error + 'a VLVector" where
  "save_after sz d v curPlc after =
     (if curPlc \<noteq> vsize v then
        (case rd v curPlc of
           Inl e \<Rightarrow> Inl e
         | Inr x \<Rightarrow>
             (case push_back sz d after x of
                Inl e \<Rightarrow> Inl e
              | Inr after1 \<Rightarrow> save_after sz d v (curPlc + 1) after1))
      else Inr after)"
  by pat_completeness auto
termination
  by (relation "measure (\<lambda>(sz, d, v, curPlc, after). length (data v) - curPlc)")
     (auto simp: rd_def split: if_splits)

declare save_after.simps [simp del]

text \<open>\<^verbatim>\<open>std::copy(first, last, out)\<close> from a source range, given as the list of its
  elements, into the container.\<close>

fun copy_in :: "'a list \<Rightarrow> 'a VLVector \<Rightarrow> nat \<Rightarrow> error + 'a VLVector" where
  "copy_in [] v out = Inr v"
| "copy_in (x # xs) v out =
     (case wr v out x of Inl e \<Rightarrow> Inl e | Inr v1 \<Rightarrow> copy_in xs v1 (out + 1))"

text \<open>Reading a container from \<^verbatim>\<open>begin()\<close> to \<^verbatim>\<open>end()\<close>:
  \<^verbatim>\<open>for (it = begin(); it != end(); ++it) ... *it ...\<close>.\<close>

function iterate :: "'a VLVector \<Rightarrow> nat \<Rightarrow> 'a list \<Rightarrow> error + 'a list" where
  "iterate v it acc =
     (if it \<noteq> vsize v then
        (case rd v it of
           Inl e \<Rightarrow> Inl e
         | Inr x \<Rightarrow> iterate v (it + 1) (acc @ [x]))
      else Inr acc)"
  by pat_completeness auto
termination
  by (relation "measure (\<lambda>(v, it, acc). length (data v) - it)")
     (auto simp: rd_def split: if_splits)

declare iterate.simps [simp del]

definition begin_to_end :: "'a VLVector \<Rightarrow> error + 'a list" where
  "begin_to_end v = iterate v 0 []"

definition insert_range ::
  "nat \<Rightarrow> nat \<Rightarrow> 'a \<Rightarrow> 'a VLVector \<Rightarrow> nat \<Rightarrow> 'a list \<Rightarrow> error + ('a VLVector \<times> nat)" where
  "insert_range N sz d v iter xs =
     (let inPlc = iter
      in case save_after sz d v iter (VLVector N d) of
           Inl e \<Rightarrow> Inl e
         | Inr after \<Rightarrow>
             (let v1 = v\<lparr>vsize := size_t (int (vsize v) + int (length xs))\<rparr>
              in case (if vsize v1 > vcapacity v1 then increaseCapacity sz d v1 else Inr v1) of
                   Inl e \<Rightarrow> Inl e
                 | Inr v2 \<Rightarrow>
                     (let toIns = inPlc
                      in case copy_in xs v2 toIns of
                           Inl e \<Rightarrow> Inl e
                         | Inr v3 \<Rightarrow>
                             (case begin_to_end after of
                                Inl e \<Rightarrow> Inl e
                              | Inr ys \<Rightarrow>
                                  (case copy_in ys v3 (toIns + length xs) of
                                     Inl e \<Rightarrow> Inl e
                                   | Inr v4 \<Rightarrow> Inr (v4, toIns))))))"

text \<open>The range insert raises \<^verbatim>\<open>_size\<close> before it grows, so the loop of
  \<^verbatim>\<open>_increaseCapacity\<close> then reads \<^verbatim>\<open>data()[i]\<close> past the end of the old array. The language
  leaves such a read undefined, and \<open>insert_range\<close> reports it. On the usual
  implementations the read returns the bytes that lie behind the array (for the inline array,
  the members of the container that follow it), and the range insert goes on.
  \<open>insert_range_stray\<close> is the range insert under that reading: \<open>junk i\<close> is the value found
  at offset \<open>i\<close> behind a live array. A write past the end stays an error.\<close>

definition rd_stray :: "(nat \<Rightarrow> 'a) \<Rightarrow> 'a VLVector \<Rightarrow> nat \<Rightarrow> error + 'a" where
  "rd_stray junk v i =
     (if i < length (data v) then Inr (data v ! i)
      else if curData v = Dangling then Inl UndefinedBehaviour
      else Inr (junk i))"

function copy_loop_stray ::
  "(nat \<Rightarrow> 'a) \<Rightarrow> 'a VLVector \<Rightarrow> nat \<Rightarrow> 'a list \<Rightarrow> error + 'a list" where
  "copy_loop_stray junk v i temp =
     (if i < vsize v then
        (case rd_stray junk v i of
           Inl e \<Rightarrow> Inl e
         | Inr x \<Rightarrow> if i < length temp then copy_loop_stray junk v (i + 1) (temp[i := x])
                    else Inl UndefinedBehaviour)
      else Inr temp)"
  by pat_completeness auto
termination
  by (relation "measure (\<lambda>(junk, v, i, temp). vsize v - i)") auto

declare copy_loop_stray.simps [simp del]

definition increaseCapacity_stray ::
  "(nat \<Rightarrow> 'a) \<Rightarrow> nat \<Rightarrow> 'a \<Rightarrow> 'a VLVector \<Rightarrow> error + 'a VLVector" where
  "increaseCapacity_stray junk sz d v =
     (let c = size_t (int (size_t (int (vsize v) + INCREASE_INC)) * 3) div 2;
          v1 = v\<lparr>vcapacity := c\<rparr>
      in case copy_loop_stray junk v1 0 (new_array (size_t (int sz * int c)) d) of
           Inl e \<Rightarrow> Inl e
         | Inr temp \<Rightarrow>
             (if dynamic v1 then
                (case delete_array (curData v1) of
                   Inl e \<Rightarrow> Inl e
                 | Inr u \<Rightarrow> Inr (v1\<lparr>curData := Heap temp, dynamic := True\<rparr>))
              else Inr (v1\<lparr>curData := Heap temp, dynamic := True\<rparr>)))"

definition insert_range_stray ::
  "(nat \<Rightarrow> 'a) \<Rightarrow> nat \<Rightarrow> nat \<Rightarrow> 'a \<Rightarrow> 'a VLVector \<Rightarrow> nat \<Rightarrow> 'a list
   \<Rightarrow> error + ('a VLVector \<times> nat)" where
  "insert_range_stray junk N sz d v iter xs =
     (let inPlc = iter
      in case save_after sz d v iter (VLVector N d) of
           Inl e \<Rightarrow> Inl e
         | Inr after \<Rightarrow>
             (let v1 = v\<lparr>vsize := size_t (int (vsize v) + int (length xs))\<rparr>
              in case (if vsize v1 > vcapacity v1 then increaseCapacity_stray junk sz d v1
                       else Inr v1) of
                   Inl e \<Rightarrow> Inl e
                 | Inr v2 \<Rightarrow>
                     (let toIns = inPlc
                      in case copy_in xs v2 toIns of
                           Inl e \<Rightarrow> Inl e
                         | Inr v3 \<Rightarrow>
                             (case begin_to_end after of
                                Inl e \<Rightarrow> Inl e
                              | Inr ys \<Rightarrow>
                                  (case copy_in ys v3 (toIns + length xs) of
                                     Inl e \<Rightarrow> Inl e
                                   | Inr v4 \<Rightarrow> Inr (v4, toIns))))))"

text \<open>The body of \<^verbatim>\<open>operator=\<close> for \<^verbatim>\<open>this != &rhs\<close>.\<close>

definition assign_from ::
  "nat \<Rightarrow> nat \<Rightarrow> 'a \<Rightarrow> 'a VLVector \<Rightarrow> 'a VLVector \<Rightarrow> error + 'a VLVector" where
  "assign_from N sz d v rhs =
     (case (if dynamic v then delete_array (curData v) else Inr ()) of
        Inl e \<Rightarrow> Inl e
      | Inr u \<Rightarrow>
          (let v1 = (if dynamic v then v\<lparr>curData := Dangling\<rparr> else v);
               v2 = v1\<lparr>vcapacity := vcapacity rhs\<rparr>;
               v3 = (if vcapacity v2 > N
                     then v2\<lparr>curData :=
                              Heap (new_array (size_t (int (vcapacity v2) * int sz)) d),
                            dynamic := True\<rparr>
                     else v2)
           in case begin_to_end rhs of
                Inl e \<Rightarrow> Inl e
              | Inr xs \<Rightarrow>
                  (case insert_range N sz d v3 0 xs of
                     Inl e \<Rightarrow> Inl e
                   | Inr (v4, it) \<Rightarrow> Inr v4)))"

text \<open>\<^verbatim>\<open>operator=\<close> on objects in a store, where \<^verbatim>\<open>this\<close> and \<^verbatim>\<open>&rhs\<close> are addresses.\<close>

definition operator_assign ::
  "nat \<Rightarrow> nat \<Rightarrow> 'a \<Rightarrow> (nat \<rightharpoonup> 'a VLVector) \<Rightarrow> nat \<Rightarrow> nat \<Rightarrow> error + (nat \<rightharpoonup> 'a VLVector)" where
  "operator_assign N sz d st this rhs =
     (case st this of
        None \<Rightarrow> Inl UndefinedBehaviour
      | Some a \<Rightarrow>
          (case st rhs of
             None \<Rightarrow> Inl UndefinedBehaviour
           | Some b \<Rightarrow>
               (if this \<noteq> rhs then
                  (case assign_from N sz d a b of
                     Inl e \<Rightarrow> Inl e
                   | Inr a1 \<Rightarrow> Inr (st(this \<mapsto> a1)))
                else Inr st)))"

text \<open>The copy constructor delegates to \<^verbatim>\<open>VLVector()\<close> and then assigns.\<close>

definition VLVector_copy :: "nat \<Rightarrow> nat \<Rightarrow> 'a \<Rightarrow> 'a VLVector \<Rightarrow> error + 'a VLVector" where
  "VLVector_copy N sz d toCopy = assign_from N sz d (VLVector N d) toCopy"

subsection \<open>Checked access\<close>

text \<open>\<^verbatim>\<open>at(idx)\<close> returns its result together with the container as the call leaves it.\<close>

definition at :: "'a VLVector \<Rightarrow> nat \<Rightarrow> (error + 'a) \<times> 'a VLVector" where
  "at v idx = (if idx \<ge> vsize v then (Inl OutOfRange, v) else (rd v idx, v))"

subsection \<open>The elements of a container and the invariants of the data model\<close>

definition elems :: "'a VLVector \<Rightarrow> 'a list" where
  "elems v = take (vsize v) (data v)"

definition wellformed :: "nat \<Rightarrow> 'a VLVector \<Rightarrow> bool" where
  "wellformed N v \<longleftrightarrow>
     length (statData v) = N \<and> vsize v \<le> vcapacity v \<and> vcapacity v < 2 ^ 64 \<and>
     (if dynamic v
      then (case curData v of Heap h \<Rightarrow> vcapacity v \<le> length h | _ \<Rightarrow> False) \<and> N < vcapacity v
      else curData v = StatData \<and> vcapacity v = N)"

subsection \<open>Containers that differ in their element values only\<close>

definition same_shape :: "'a VLVector \<Rightarrow> 'a VLVector \<Rightarrow> bool" where
  "same_shape v w \<longleftrightarrow>
     vsize w = vsize v \<and> vcapacity w = vcapacity v \<and> dynamic w = dynamic v \<and>
     length (statData w) = length (statData v) \<and> length (data w) = length (data v) \<and>
     (curData w = StatData \<longleftrightarrow> curData v = StatData) \<and>
     (curData w = Dangling \<longleftrightarrow> curData v = Dangling)"

subsection \<open>Inserting a range one element at a time\<close>

text \<open>The behaviour the range insert is compared with: the elements of the source range go
  in one after the other through the single-element insert, each behind the one before it.\<close>

fun insert_one_at_a_time ::
  "nat \<Rightarrow> 'a \<Rightarrow> 'a VLVector \<Rightarrow> nat \<Rightarrow> 'a list \<Rightarrow> error + 'a VLVector" where
  "insert_one_at_a_time sz d v pos [] = Inr v"
| "insert_one_at_a_time sz d v pos (x # xs) =
     (case insert_single sz d v pos x of
        Inl e \<Rightarrow> Inl e
      | Inr (v1, it) \<Rightarrow> insert_one_at_a_time sz d v1 (it + 1) xs)"

subsection \<open>Reachable states\<close>

text \<open>The containers that the public operations produce from a freshly constructed one, when
  every operation is called within its precondition (\<^verbatim>\<open>pop_back\<close> and \<^verbatim>\<open>erase\<close> on elements that
  exist, positions inside \<^verbatim>\<open>[begin(), end()]\<close>, ranges not reversed), runs to completion, and
  keeps the element count below a third of \<open>2 ^ 64\<close>. The range constructor is a sequence of
  \<^verbatim>\<open>push_back\<close> steps and the copy constructor an assignment to a fresh container;
  a self-assignment changes nothing.\<close>

inductive reachable :: "nat \<Rightarrow> nat \<Rightarrow> 'a \<Rightarrow> 'a VLVector \<Rightarrow> bool" for N sz d where
  construct: "reachable N sz d (VLVector N d)"
| pushBack: "reachable N sz d v \<Longrightarrow> 3 * (vsize v + 1) < 2 ^ 64 \<Longrightarrow>
     push_back sz d v x = Inr w \<Longrightarrow> reachable N sz d w"
| popBack: "reachable N sz d v \<Longrightarrow> 0 < vsize v \<Longrightarrow>
     pop_back N v = Inr w \<Longrightarrow> reachable N sz d w"
| insertOne: "reachable N sz d v \<Longrightarrow> pos \<le> vsize v \<Longrightarrow> 3 * (vsize v + 1) < 2 ^ 64 \<Longrightarrow>
     insert_single sz d v pos x = Inr (w, it) \<Longrightarrow> reachable N sz d w"
| insertRange: "reachable N sz d v \<Longrightarrow> pos \<le> vsize v \<Longrightarrow>
     3 * (vsize v + length xs + 1) < 2 ^ 64 \<Longrightarrow>
     insert_range N sz d v pos xs = Inr (w, it) \<Longrightarrow> reachable N sz d w"
| eraseOne: "reachable N sz d v \<Longrightarrow> pos < vsize v \<Longrightarrow>
     erase N v pos = Inr (w, it) \<Longrightarrow> reachable N sz d w"
| eraseRange: "reachable N sz d v \<Longrightarrow> first \<le> lst \<Longrightarrow> lst \<le> vsize v \<Longrightarrow>
     erase_range N v first lst = Inr (w, it) \<Longrightarrow> reachable N sz d w"
| clearAll: "reachable N sz d v \<Longrightarrow> clear v = Inr w \<Longrightarrow> reachable N sz d w"
| assign: "reachable N sz d v \<Longrightarrow> reachable N sz d rhs \<Longrightarrow>
     3 * (vsize v + vsize rhs + 1) < 2 ^ 64 \<Longrightarrow>
     assign_from N sz d v rhs = Inr w \<Longrightarrow> reachable N sz d w"

subsection \<open>Arithmetic of size_t and element access\<close>

lemma size_t_id: "0 \<le> i \<Longrightarrow> i < 2 ^ 64 \<Longrightarrow> size_t i = nat i"
  by (simp add: size_t_def)

lemma size_t_nat: "n < 2 ^ 64 \<Longrightarrow> size_t (int n) = n"
proof -
  assume "n < 2 ^ 64"
  then have "int n < 2 ^ 64" by simp
  then show ?thesis by (simp add: size_t_id)
qed

lemma size_t_le: "size_t (int n) \<le> n"
proof -
  have "int n mod 2 ^ 64 \<le> int n"
    by (rule zmod_le_nonneg_dividend) simp
  then show ?thesis by (simp add: size_t_def)
qed

lemma size_t_dec_le: "0 < n \<Longrightarrow> size_t (int n - 1) \<le> n - 1"
proof -
  assume "0 < n"
  then have "int n - 1 = int (n - 1)" by linarith
  then show ?thesis by (metis size_t_le)
qed

lemma size_t_dec: "0 < n \<Longrightarrow> n < 2 ^ 64 \<Longrightarrow> size_t (int n - 1) = n - 1"
proof -
  assume n: "0 < n" "n < 2 ^ 64"
  then have "int n - 1 = int (n - 1)" by linarith
  moreover have "n - 1 < 2 ^ 64" using n by linarith
  ultimately show ?thesis by (metis size_t_nat)
qed

lemma size_t_inc: "n + 1 < 2 ^ 64 \<Longrightarrow> size_t (int n + 1) = n + 1"
proof -
  assume n: "n + 1 < 2 ^ 64"
  have "int n + 1 = int (n + 1)" by simp
  then show ?thesis using n by (metis size_t_nat)
qed

lemma size_t_add: "m + n < 2 ^ 64 \<Longrightarrow> size_t (int m + int n) = m + n"
proof -
  assume "m + n < 2 ^ 64"
  moreover have "int m + int n = int (m + n)" by simp
  ultimately show ?thesis by (metis size_t_nat)
qed

lemma grow_capacity:
  assumes "3 * (n + 1) < (2::nat) ^ 64"
  shows "size_t (int (size_t (int n + INCREASE_INC)) * 3) div 2 = (n + 1) * 3 div 2"
proof -
  have a: "size_t (int n + INCREASE_INC) = n + 1"
    using assms by (simp add: INCREASE_INC_def size_t_inc)
  have "int (n + 1) * 3 = int ((n + 1) * 3)" by simp
  moreover have "(n + 1) * 3 < 2 ^ 64" using assms by (simp add: mult.commute)
  ultimately have "size_t (int (n + 1) * 3) = (n + 1) * 3" by (metis size_t_nat)
  then show ?thesis by (simp only: a)
qed

lemma same_shape_refl [simp]: "same_shape v v"
  by (simp add: same_shape_def)

lemma same_shape_trans: "same_shape u v \<Longrightarrow> same_shape v w \<Longrightarrow> same_shape u w"
  by (simp add: same_shape_def)

lemma data_store: "curData v \<noteq> Dangling \<Longrightarrow> data (store v l) = l"
  by (simp add: data_def store_def split: buffer.splits)

lemma data_upd [simp]:
  "data (v\<lparr>vcapacity := c\<rparr>) = data v"
  "data (v\<lparr>vsize := n\<rparr>) = data v"
  "data (v\<lparr>dynamic := b\<rparr>) = data v"
  "data (v\<lparr>curData := Heap h\<rparr>) = h"
  "data (v\<lparr>curData := StatData\<rparr>) = statData v"
  "data (v\<lparr>curData := Dangling\<rparr>) = []"
  by (simp_all add: data_def split: buffer.splits)

lemma wr_Inr:
  assumes "wr v i x = Inr w"
  shows "i < length (data v)" "data w = (data v)[i := x]" "same_shape v w"
        "curData v = Heap h \<Longrightarrow> statData w = statData v"
  using assms
  by (auto simp: wr_def same_shape_def data_def store_def split: if_splits buffer.splits)

lemma wr_ok: "i < length (data v) \<Longrightarrow> \<exists>w. wr v i x = Inr w"
  by (simp add: wr_def)

lemma rd_ok: "i < length (data v) \<Longrightarrow> rd v i = Inr (data v ! i)"
  by (simp add: rd_def)

lemma wellformed_same_shape: "wellformed N v \<Longrightarrow> same_shape v w \<Longrightarrow> wellformed N w"
  by (auto simp: wellformed_def same_shape_def data_def split: buffer.splits if_splits)

lemma wellformed_data: "wellformed N v \<Longrightarrow> vcapacity v \<le> length (data v)"
  by (auto simp: wellformed_def data_def split: buffer.splits if_splits)

lemma wellformed_size_data:
  assumes "wellformed N v"
  shows "vsize v \<le> length (data v)"
proof -
  have "vsize v \<le> vcapacity v" using assms by (simp add: wellformed_def)
  then show ?thesis using wellformed_data [OF assms] by linarith
qed

lemma wellformedD:
  assumes "wellformed N v"
  shows "vsize v \<le> vcapacity v" "vcapacity v < 2 ^ 64" "length (statData v) = N"
    "vsize v < 2 ^ 64" "N \<le> vcapacity v" "N < 2 ^ 64"
proof -
  show a: "vsize v \<le> vcapacity v" and b: "vcapacity v < 2 ^ 64"
    and "length (statData v) = N"
    using assms by (simp_all add: wellformed_def)
  show "vsize v < 2 ^ 64" using a b by linarith
  show c: "N \<le> vcapacity v" using assms by (auto simp: wellformed_def split: if_splits)
  show "N < 2 ^ 64" using b c by linarith
qed

subsection \<open>Growing\<close>

lemma copy_loop_ok:
  "i \<le> vsize v \<Longrightarrow> vsize v \<le> length (data v) \<Longrightarrow> vsize v \<le> length temp \<Longrightarrow>
   \<exists>t. copy_loop v i temp = Inr t \<and> length t = length temp \<and>
       (\<forall>j<length t. t ! j = (if i \<le> j \<and> j < vsize v then data v ! j else temp ! j))"
proof (induction v i temp rule: copy_loop.induct)
  case (1 v i temp)
  show ?case
  proof (cases "i < vsize v")
    case False
    then show ?thesis using "1.prems" by (auto simp add: copy_loop.simps)
  next
    case True
    then have r: "rd v i = Inr (data v ! i)" and it: "i < length temp"
      using "1.prems" by (simp_all add: rd_ok)
    from "1.IH" [OF True r it] True "1.prems"
    obtain t where t: "copy_loop v (i + 1) (temp[i := data v ! i]) = Inr t"
      "length t = length temp"
      "\<forall>j<length t. t ! j = (if i + 1 \<le> j \<and> j < vsize v then data v ! j
                               else temp[i := data v ! i] ! j)"
      by auto
    have "copy_loop v i temp = Inr t"
      using True r it t(1) by (subst copy_loop.simps) simp
    moreover have "\<forall>j<length t. t ! j = (if i \<le> j \<and> j < vsize v then data v ! j else temp ! j)"
      using t(2,3) it True by (auto simp: nth_list_update)
    ultimately show ?thesis using t(2) by blast
  qed
qed

lemma copy_loop_fields:
  "copy_loop v i temp = Inr t \<Longrightarrow> length t = length temp"
proof (induction v i temp rule: copy_loop.induct)
  case (1 v i temp)
  then show ?case
    by (subst (asm) (2) copy_loop.simps) (auto split: if_splits sum.splits)
qed

lemma increaseCapacity_fields:
  assumes "increaseCapacity sz d v = Inr w"
  shows "vsize w = vsize v"
    and "vcapacity w = size_t (int (size_t (int (vsize v) + INCREASE_INC)) * 3) div 2"
    and "dynamic w" and "statData w = statData v"
    and "\<exists>t. curData w = Heap t \<and>
           length t = size_t (int sz * int (vcapacity w))"
  using assms
  by (auto simp: increaseCapacity_def Let_def new_array_def
      split: sum.splits if_splits dest: copy_loop_fields)

lemma increaseCapacity_ok:
  assumes len: "vsize v \<le> length (data v)"
    and dyn: "dynamic v \<longrightarrow> (\<exists>h. curData v = Heap h)"
    and sz: "0 < sz" and bound: "sz * (3 * (vsize v + 1)) < 2 ^ 64"
  shows "\<exists>w t. increaseCapacity sz d v = Inr w \<and> vsize w = vsize v \<and>
           vcapacity w = (vsize v + 1) * 3 div 2 \<and> dynamic w \<and>
           statData w = statData v \<and> curData w = Heap t \<and>
           vcapacity w \<le> length t \<and> vsize v < vcapacity w \<and> vcapacity w < 2 ^ 64 \<and>
           take (vsize v) t = take (vsize v) (data v)"
proof -
  let ?c = "(vsize v + 1) * 3 div 2"
  have b3: "3 * (vsize v + 1) < (2::nat) ^ 64"
  proof -
    have "3 * (vsize v + 1) \<le> sz * (3 * (vsize v + 1))" using sz by simp
    then show ?thesis using bound by linarith
  qed
  have c: "size_t (int (size_t (int (vsize v) + INCREASE_INC)) * 3) div 2 = ?c"
    by (rule grow_capacity [OF b3])
  have "sz * ?c \<le> sz * (3 * (vsize v + 1))"
    by (rule mult_le_mono2) simp
  then have "sz * ?c < 2 ^ 64" using bound by linarith
  then have l: "size_t (int sz * int ?c) = sz * ?c"
    by (metis size_t_nat of_nat_mult)
  have cs: "vsize v < ?c" by simp
  have "?c \<le> sz * ?c" using sz by simp
  then have "vsize v \<le> sz * ?c" using cs by linarith
  then have fit: "vsize v \<le> length (new_array (sz * ?c) d)"
    by (simp add: new_array_def)
  let ?v1 = "v\<lparr>vcapacity := ?c\<rparr>"
  have d1: "data ?v1 = data v" by simp
  from copy_loop_ok [of 0 ?v1 "new_array (sz * ?c) d"] len fit d1
  obtain t where t: "copy_loop ?v1 0 (new_array (sz * ?c) d) = Inr t"
      "length t = sz * ?c"
      "\<forall>j<length t. t ! j = (if j < vsize v then data v ! j else new_array (sz * ?c) d ! j)"
    by (auto simp: new_array_def)
  have tk: "take (vsize v) t = take (vsize v) (data v)"
  proof (rule nth_equalityI)
    show "length (take (vsize v) t) = length (take (vsize v) (data v))"
      using t(2) fit len by (simp add: new_array_def)
  next
    fix j assume "j < length (take (vsize v) t)"
    then show "take (vsize v) t ! j = take (vsize v) (data v) ! j"
      using t(3) by simp
  qed
  have del: "dynamic v \<Longrightarrow> delete_array (curData v) = Inr ()"
    using dyn by (auto simp: delete_array_def)
  have "increaseCapacity sz d v = Inr (?v1\<lparr>curData := Heap t, dynamic := True\<rparr>)"
    unfolding increaseCapacity_def Let_def c l using t(1) del by simp
  moreover have "?c \<le> length t" using t(2) \<open>?c \<le> sz * ?c\<close> by simp
  moreover have "?c < 2 ^ 64"
  proof -
    have "?c \<le> 3 * (vsize v + 1)" by simp
    then show ?thesis using b3 by linarith
  qed
  ultimately show ?thesis using cs tk by simp
qed

subsection \<open>push_back\<close>

lemma take_upd_snoc: "n < length l \<Longrightarrow> take (Suc n) (l[n := x]) = take n l @ [x]"
  by (simp add: take_Suc_conv_app_nth)

lemma wellformed_vsize:
  "wellformed N v \<Longrightarrow> n \<le> vcapacity v \<Longrightarrow> wellformed N (v\<lparr>vsize := n\<rparr>)"
  by (auto simp: wellformed_def split: buffer.splits)

lemma elems_vsize: "elems (v\<lparr>vsize := n\<rparr>) = take n (data v)"
  by (simp add: elems_def)

lemma push_back_ok:
  assumes wf: "wellformed N v" and sz: "0 < sz"
    and bound: "sz * (3 * (vsize v + 1)) < 2 ^ 64"
  shows "\<exists>w. push_back sz d v x = Inr w \<and> wellformed N w \<and> vsize w = vsize v + 1 \<and>
           elems w = elems v @ [x] \<and>
           vcapacity w = (if vsize v = vcapacity v then (vsize v + 1) * 3 div 2
                          else vcapacity v) \<and>
           dynamic w = (dynamic v \<or> vsize v = vcapacity v)"
proof -
  have b3: "3 * (vsize v + 1) < (2::nat) ^ 64"
  proof -
    have "3 * (vsize v + 1) \<le> sz * (3 * (vsize v + 1))" using sz by simp
    then show ?thesis using bound by linarith
  qed
  then have "vsize v + 1 < 2 ^ 64" by simp
  then have inc: "size_t (int (vsize v) + 1) = vsize v + 1"
    by (rule size_t_inc)
  have cap: "vcapacity v \<le> length (data v)" by (rule wellformed_data [OF wf])
  have sc: "vsize v \<le> vcapacity v" using wf by (simp add: wellformed_def)
  show ?thesis
  proof (cases "vsize v = vcapacity v")
    case True
    have "dynamic v \<longrightarrow> (\<exists>h. curData v = Heap h)"
      using wf by (auto simp: wellformed_def split: buffer.splits)
    from increaseCapacity_ok [OF _ this sz bound, of d] cap sc
    obtain u t where u: "increaseCapacity sz d v = Inr u" "vsize u = vsize v"
      "vcapacity u = (vsize v + 1) * 3 div 2" "dynamic u" "statData u = statData v"
      "curData u = Heap t" "vcapacity u \<le> length t" "vsize v < vcapacity u"
      "vcapacity u < 2 ^ 64"
      "take (vsize v) t = take (vsize v) (data v)"
      by auto
    have lt: "vsize v < length t" using u(7,8) by linarith
    have du: "data u = t" using u(6) by (simp add: data_def)
    let ?w = "u\<lparr>curData := Heap (t[vsize v := x]), vsize := vsize v + 1\<rparr>"
    have w: "wr u (vsize u) x = Inr (u\<lparr>curData := Heap (t[vsize v := x])\<rparr>)"
      using lt du u(2,6) by (simp add: wr_def store_def)
    have pb: "push_back sz d v x = Inr ?w"
      using True u(1,2) w inc by (simp add: push_back_def)
    have ncap: "N \<le> vcapacity v" using wf by (auto simp: wellformed_def split: if_splits)
    have "N < vcapacity u" using ncap True u(8) by linarith
    moreover have "length (statData v) = N" using wf by (simp add: wellformed_def)
    moreover have "vsize v + 1 \<le> vcapacity u" using u(8) by linarith
    ultimately have wfw: "wellformed N ?w"
      using u(4,5,6,7,9) by (simp add: wellformed_def)
    have "elems ?w = elems v @ [x]"
      using lt u(10) by (simp add: elems_def take_upd_snoc)
    then show ?thesis using pb wfw u(3,4) True by simp
  next
    case False
    then have lt: "vsize v < length (data v)" using cap sc by linarith
    from wr_ok [OF lt] obtain w2 where w2: "wr v (vsize v) x = Inr w2" by blast
    note f = wr_Inr [OF w2]
    let ?w = "w2\<lparr>vsize := vsize v + 1\<rparr>"
    have pb: "push_back sz d v x = Inr ?w"
      using False w2 inc f(3) by (simp add: push_back_def same_shape_def)
    have "wellformed N w2" by (rule wellformed_same_shape [OF wf f(3)])
    moreover have "vsize v + 1 \<le> vcapacity w2"
      using False sc f(3) by (simp add: same_shape_def)
    ultimately have wfw: "wellformed N ?w" by (rule wellformed_vsize)
    have "elems ?w = elems v @ [x]"
      using lt f(2) by (simp add: elems_def take_upd_snoc)
    then show ?thesis using pb wfw f(3) False by (simp add: same_shape_def)
  qed
qed

subsection \<open>Pushing a sequence and reading it back\<close>

lemma push_all_ok:
  "wellformed N v \<Longrightarrow> 0 < sz \<Longrightarrow> sz * (3 * (vsize v + length xs)) < 2 ^ 64 \<Longrightarrow>
   \<exists>w. push_all sz d v xs = Inr w \<and> wellformed N w \<and> vsize w = vsize v + length xs \<and>
       elems w = elems v @ xs \<and>
       ((dynamic v \<longleftrightarrow> N < vsize v) \<longrightarrow> (dynamic w \<longleftrightarrow> N < vsize w))"
proof (induction xs arbitrary: v)
  case Nil
  then show ?case by simp
next
  case (Cons x xs)
  have "sz * (3 * (vsize v + 1)) \<le> sz * (3 * (vsize v + length (x # xs)))"
    by (intro mult_le_mono2) simp
  then have b1: "sz * (3 * (vsize v + 1)) < 2 ^ 64"
    using Cons.prems(3) by linarith
  from push_back_ok [OF Cons.prems(1,2) b1, of d x]
  obtain u where u: "push_back sz d v x = Inr u" "wellformed N u" "vsize u = vsize v + 1"
    "elems u = elems v @ [x]"
    "vcapacity u = (if vsize v = vcapacity v then (vsize v + 1) * 3 div 2 else vcapacity v)"
    "dynamic u = (dynamic v \<or> vsize v = vcapacity v)"
    by blast
  have b2: "sz * (3 * (vsize u + length xs)) < 2 ^ 64"
    using Cons.prems(3) u(3) by simp
  from Cons.IH [OF u(2) Cons.prems(2) b2]
  obtain w where w: "push_all sz d u xs = Inr w" "wellformed N w"
    "vsize w = vsize u + length xs" "elems w = elems u @ xs"
    "(dynamic u \<longleftrightarrow> N < vsize u) \<longrightarrow> (dynamic w \<longleftrightarrow> N < vsize w)"
    by blast
  have tight: "(dynamic v \<longleftrightarrow> N < vsize v) \<longrightarrow> (dynamic u \<longleftrightarrow> N < vsize u)"
    using Cons.prems(1) u(3,6) by (auto simp: wellformed_def split: if_splits)
  have "push_all sz d v (x # xs) = Inr w" using u(1) w(1) by simp
  then show ?case using w(2,3,4,5) u(3,4) tight by auto
qed

lemma wellformed_VLVector: "N < 2 ^ 64 \<Longrightarrow> wellformed N (VLVector N d)"
  by (simp add: wellformed_def VLVector_def)

lemma elems_VLVector [simp]: "elems (VLVector N d) = []"
  by (simp add: elems_def VLVector_def)

lemma iterate_ok:
  "i \<le> vsize v \<Longrightarrow> vsize v \<le> length (data v) \<Longrightarrow>
   iterate v i acc = Inr (acc @ drop i (elems v))"
proof (induction v i acc rule: iterate.induct)
  case (1 v it acc)
  show ?case
  proof (cases "it = vsize v")
    case True
    then show ?thesis by (simp add: iterate.simps elems_def)
  next
    case False
    then have lt: "it < vsize v" using "1.prems" by simp
    then have r: "rd v it = Inr (data v ! it)" using "1.prems" by (simp add: rd_ok)
    have "iterate v (it + 1) (acc @ [data v ! it]) =
            Inr ((acc @ [data v ! it]) @ drop (it + 1) (elems v))"
      using "1.IH" [OF False r] lt "1.prems" by simp
    moreover have "drop it (elems v) = data v ! it # drop (it + 1) (elems v)"
      using Cons_nth_drop_Suc [of it "elems v"] lt "1.prems" by (simp add: elems_def)
    ultimately show ?thesis using False r by (subst iterate.simps) simp
  qed
qed

lemma begin_to_end_ok:
  assumes "wellformed N v"
  shows "begin_to_end v = Inr (elems v)"
proof -
  have "vsize v \<le> vcapacity v" using assms by (simp add: wellformed_def)
  then have "vsize v \<le> length (data v)"
    using wellformed_data [OF assms] by linarith
  then show ?thesis using iterate_ok [of 0 v "[]"] by (simp add: begin_to_end_def)
qed

subsection \<open>Shrinking and pop_back\<close>

lemma stat_loop_fields:
  "stat_loop v i = Inr w \<Longrightarrow>
   vsize w = vsize v \<and> vcapacity w = vcapacity v \<and> dynamic w = dynamic v \<and>
   curData w = curData v \<and> length (statData w) = length (statData v)"
proof (induction v i rule: stat_loop.induct)
  case (1 v idx)
  show ?case
  proof (cases "idx < vsize v")
    case False
    then show ?thesis using "1.prems" by (simp add: stat_loop.simps)
  next
    case True
    then obtain x where x: "rd v idx = Inr x" and l: "idx < length (statData v)"
      and r: "stat_loop (v\<lparr>statData := (statData v)[idx := x]\<rparr>) (idx + 1) = Inr w"
      using "1.prems" by (subst (asm) stat_loop.simps) (auto split: sum.splits if_splits)
    from "1.IH" [OF True x l r] show ?thesis by simp
  qed
qed

lemma stat_loop_ok:
  "curData v = Heap h \<Longrightarrow> i \<le> vsize v \<Longrightarrow> vsize v \<le> length h \<Longrightarrow>
   vsize v \<le> length (statData v) \<Longrightarrow>
   \<exists>l. stat_loop v i = Inr (v\<lparr>statData := l\<rparr>) \<and> length l = length (statData v) \<and>
       (\<forall>j<length l. l ! j = (if i \<le> j \<and> j < vsize v then h ! j else statData v ! j))"
proof (induction v i rule: stat_loop.induct)
  case (1 v idx)
  have dv: "data v = h" using "1.prems"(1) by (simp add: data_def)
  show ?case
  proof (cases "idx < vsize v")
    case False
    then have "stat_loop v idx = Inr (v\<lparr>statData := statData v\<rparr>)"
      by (simp add: stat_loop.simps)
    moreover have "\<forall>j<length (statData v).
        statData v ! j = (if idx \<le> j \<and> j < vsize v then h ! j else statData v ! j)"
      using False "1.prems"(2) by auto
    ultimately show ?thesis by blast
  next
    case True
    then have r: "rd v idx = Inr (h ! idx)" and l: "idx < length (statData v)"
      using "1.prems" dv by (simp_all add: rd_ok)
    let ?v1 = "v\<lparr>statData := (statData v)[idx := h ! idx]\<rparr>"
    from "1.IH" [OF True r l] "1.prems" True
    obtain l1 where l1: "stat_loop ?v1 (idx + 1) = Inr (?v1\<lparr>statData := l1\<rparr>)"
      "length l1 = length (statData v)"
      "\<forall>j<length l1. l1 ! j = (if idx + 1 \<le> j \<and> j < vsize v then h ! j
                                  else (statData v)[idx := h ! idx] ! j)"
      by auto
    have "stat_loop v idx = Inr (v\<lparr>statData := l1\<rparr>)"
      using True r l l1(1) by (subst stat_loop.simps) simp
    moreover have "\<forall>j<length l1. l1 ! j = (if idx \<le> j \<and> j < vsize v then h ! j
                                            else statData v ! j)"
      using l1(2,3) l True by (auto simp: nth_list_update)
    ultimately show ?thesis using l1(2) by blast
  qed
qed

lemma decreaseCapacity_fields:
  assumes "decreaseCapacity N v = Inr w"
  shows "vsize w = vsize v" "vcapacity w = N" "\<not> dynamic w" "curData w = StatData"
    "length (statData w) = length (statData v)"
  using assms
  by (auto simp: decreaseCapacity_def split: sum.splits dest: stat_loop_fields)

lemma decreaseCapacity_ok:
  assumes h: "curData v = Heap h" and s: "vsize v \<le> length h"
    and t: "vsize v \<le> length (statData v)"
  shows "\<exists>w. decreaseCapacity N v = Inr w \<and> vsize w = vsize v \<and> vcapacity w = N \<and>
           \<not> dynamic w \<and> curData w = StatData \<and>
           length (statData w) = length (statData v) \<and> elems w = take (vsize v) h"
proof -
  from stat_loop_ok [OF h _ s t, of 0]
  obtain l where l: "stat_loop v 0 = Inr (v\<lparr>statData := l\<rparr>)"
    "length l = length (statData v)"
    "\<forall>j<length l. l ! j = (if j < vsize v then h ! j else statData v ! j)"
    by auto
  let ?w = "v\<lparr>statData := l, curData := StatData, vcapacity := N, dynamic := False\<rparr>"
  have "decreaseCapacity N v = Inr ?w"
    using l(1) h by (simp add: decreaseCapacity_def delete_array_def)
  moreover have "take (vsize v) l = take (vsize v) h"
  proof (rule nth_equalityI)
    show "length (take (vsize v) l) = length (take (vsize v) h)"
      using l(2) s t by simp
  next
    fix j assume "j < length (take (vsize v) l)"
    then show "take (vsize v) l ! j = take (vsize v) h ! j"
      using l(3) by simp
  qed
  ultimately show ?thesis using l(2) by (simp add: elems_def)
qed

text \<open>The test after every removal: \<^verbatim>\<open>if (_size <= StaticCapacity && _dynamic)\<close>.\<close>

lemma shrink_ok:
  assumes wf: "wellformed N u"
  shows "\<exists>w. (if vsize u \<le> N \<and> dynamic u then decreaseCapacity N u else Inr u) = Inr w \<and>
           wellformed N w \<and> vsize w = vsize u \<and> elems w = elems u \<and>
           (dynamic w \<longleftrightarrow> dynamic u \<and> N < vsize u) \<and>
           vcapacity w = (if vsize u \<le> N then N else vcapacity u)"
proof (cases "vsize u \<le> N \<and> dynamic u")
  case True
  then obtain h where h: "curData u = Heap h" "vcapacity u \<le> length h"
    using wf by (auto simp: wellformed_def split: buffer.splits)
  have s: "vsize u \<le> length h" using wf h(2) by (simp add: wellformed_def)
  have t: "vsize u \<le> length (statData u)" using wf True by (simp add: wellformed_def)
  from decreaseCapacity_ok [OF h(1) s t, of N]
  obtain w where w: "decreaseCapacity N u = Inr w" "vsize w = vsize u" "vcapacity w = N"
    "\<not> dynamic w" "curData w = StatData" "length (statData w) = length (statData u)"
    "elems w = take (vsize u) h"
    by blast
  have "N < 2 ^ 64" using wf True by (simp add: wellformed_def)
  then have "wellformed N w" using w wf True by (simp add: wellformed_def)
  moreover have "elems u = take (vsize u) h" using h(1) by (simp add: elems_def data_def)
  ultimately show ?thesis using True w by simp
next
  case False
  have "vsize u \<le> N \<Longrightarrow> vcapacity u = N" using wf False by (simp add: wellformed_def)
  moreover have "dynamic u \<Longrightarrow> N < vsize u" using False by simp
  moreover have "N < vsize u \<Longrightarrow> dynamic u"
    using wf by (auto simp: wellformed_def split: if_splits)
  ultimately show ?thesis using False wf by auto
qed

lemma pop_back_ok:
  assumes wf: "wellformed N v" and ne: "0 < vsize v"
  shows "\<exists>w. pop_back N v = Inr w \<and> wellformed N w \<and> vsize w = vsize v - 1 \<and>
           elems w = take (vsize v - 1) (elems v) \<and>
           (dynamic w \<longleftrightarrow> dynamic v \<and> N < vsize v - 1) \<and>
           vcapacity w = (if vsize v - 1 \<le> N then N else vcapacity v)"
proof -
  have d: "size_t (int (vsize v) - 1) = vsize v - 1"
    using ne wellformedD(4) [OF wf] by (rule size_t_dec)
  let ?u = "v\<lparr>vsize := vsize v - 1\<rparr>"
  have "vsize v - 1 \<le> vcapacity v" using wellformedD(1) [OF wf] by linarith
  then have wfu: "wellformed N ?u" using wf by (rule wellformed_vsize [rotated])
  have e: "elems ?u = take (vsize v - 1) (elems v)"
    by (simp add: elems_def min_def)
  from shrink_ok [OF wfu]
  obtain w where w: "(if vsize ?u \<le> N \<and> dynamic ?u then decreaseCapacity N ?u else Inr ?u) = Inr w"
    "wellformed N w" "vsize w = vsize ?u" "elems w = elems ?u"
    "dynamic w \<longleftrightarrow> dynamic ?u \<and> N < vsize ?u"
    "vcapacity w = (if vsize ?u \<le> N then N else vcapacity ?u)"
    by blast
  have "pop_back N v = Inr w"
    unfolding pop_back_def Let_def d using w(1) by simp
  moreover have "vsize w = vsize v - 1" using w(3) by simp
  moreover have "elems w = take (vsize v - 1) (elems v)" using w(4) e by simp
  moreover have "dynamic w \<longleftrightarrow> dynamic v \<and> N < vsize v - 1" using w(5) by simp
  moreover have "vcapacity w = (if vsize v - 1 \<le> N then N else vcapacity v)"
    using w(6) by simp
  ultimately show ?thesis using w(2) by blast
qed

subsection \<open>Single-element insert\<close>

lemma grow_step_ok:
  assumes wf: "wellformed N v" and sz: "0 < sz"
    and bound: "sz * (3 * (vsize v + 1)) < 2 ^ 64"
  shows "\<exists>u. (if vsize v = vcapacity v then increaseCapacity sz d v else Inr v) = Inr u \<and>
           wellformed N u \<and> vsize u = vsize v \<and> vsize u < vcapacity u \<and>
           elems u = elems v \<and>
           vcapacity u = (if vsize v = vcapacity v then (vsize v + 1) * 3 div 2
                          else vcapacity v) \<and>
           dynamic u = (dynamic v \<or> vsize v = vcapacity v)"
proof (cases "vsize v = vcapacity v")
  case True
  have "dynamic v \<longrightarrow> (\<exists>h. curData v = Heap h)"
    using wf by (auto simp: wellformed_def split: buffer.splits)
  from increaseCapacity_ok [OF wellformed_size_data [OF wf] this sz bound, of d]
  obtain u t where u: "increaseCapacity sz d v = Inr u" "vsize u = vsize v"
    "vcapacity u = (vsize v + 1) * 3 div 2" "dynamic u" "statData u = statData v"
    "curData u = Heap t" "vcapacity u \<le> length t" "vsize v < vcapacity u"
    "vcapacity u < 2 ^ 64"
    "take (vsize v) t = take (vsize v) (data v)"
    by auto
  have "N < vcapacity u" using wellformedD(5) [OF wf] True u(8) by linarith
  moreover have "vsize u \<le> vcapacity u" using u(2,8) by linarith
  ultimately have "wellformed N u"
    using u(4,5,6,7,9) wellformedD(3) [OF wf] by (simp add: wellformed_def)
  moreover have "elems u = elems v" using u(2,6,10) by (simp add: elems_def data_def)
  ultimately show ?thesis using True u(1,2,3,4,8) by simp
next
  case False
  then have "vsize v < vcapacity v" using wellformedD(1) [OF wf] by linarith
  then show ?thesis using False wf by simp
qed

lemma shift_right_ok:
  "n = t - p \<Longrightarrow> p \<le> t \<Longrightarrow> t < length (data v) \<Longrightarrow>
   \<exists>w. shift_right v p t t = Inr (w, p) \<and> same_shape v w \<and>
       (\<forall>j<length (data v). data w ! j = (if p < j \<and> j \<le> t then data v ! (j - 1)
                                               else data v ! j))"
proof (induction n arbitrary: v t)
  case 0
  then have "t = p" by simp
  then show ?case by (auto simp: shift_right.simps)
next
  case (Suc n)
  then have tp: "p < t" "0 < t" by simp_all
  have r: "rd v (t - 1) = Inr (data v ! (t - 1))"
    using Suc.prems(3) by (intro rd_ok) linarith
  from wr_ok [OF Suc.prems(3)]
  obtain v1 where v1: "wr v t (data v ! (t - 1)) = Inr v1" by blast
  note f = wr_Inr [OF v1]
  have l1: "length (data v1) = length (data v)" using f(3) by (simp add: same_shape_def)
  have "n = (t - 1) - p" "p \<le> t - 1" "t - 1 < length (data v1)"
    using Suc.prems tp l1 by simp_all
  from Suc.IH [OF this]
  obtain w where w: "shift_right v1 p (t - 1) (t - 1) = Inr (w, p)" "same_shape v1 w"
    "\<forall>j<length (data v1). data w ! j = (if p < j \<and> j \<le> t - 1 then data v1 ! (j - 1)
                                              else data v1 ! j)"
    by blast
  have "shift_right v p t t = Inr (w, p)"
    using tp r v1 w(1) by (subst shift_right.simps) simp
  moreover have "same_shape v w" by (rule same_shape_trans [OF f(3) w(2)])
  moreover have "\<forall>j<length (data v). data w ! j = (if p < j \<and> j \<le> t then data v ! (j - 1)
                                                         else data v ! j)"
  proof (intro allI impI)
    fix j assume j: "j < length (data v)"
    then have "data w ! j = (if p < j \<and> j \<le> t - 1 then data v1 ! (j - 1) else data v1 ! j)"
      using w(3) l1 by simp
    then show "data w ! j = (if p < j \<and> j \<le> t then data v ! (j - 1) else data v ! j)"
      using f(2) tp j Suc.prems(3) by (auto simp: nth_list_update)
  qed
  ultimately show ?case by blast
qed

lemma insert_single_ok:
  assumes wf: "wellformed N v" and pos: "pos \<le> vsize v" and sz: "0 < sz"
    and bound: "sz * (3 * (vsize v + 1)) < 2 ^ 64"
  shows "\<exists>w. insert_single sz d v pos x = Inr (w, pos) \<and> wellformed N w \<and>
           vsize w = vsize v + 1 \<and>
           elems w = take pos (elems v) @ x # drop pos (elems v) \<and>
           vcapacity w = (if vsize v = vcapacity v then (vsize v + 1) * 3 div 2
                          else vcapacity v) \<and>
           dynamic w = (dynamic v \<or> vsize v = vcapacity v)"
proof -
  let ?s = "vsize v"
  from grow_step_ok [OF wf sz bound, of d]
  obtain u where u: "(if ?s = vcapacity v then increaseCapacity sz d v else Inr v) = Inr u"
    "wellformed N u" "vsize u = ?s" "vsize u < vcapacity u" "elems u = elems v"
    "vcapacity u = (if ?s = vcapacity v then (?s + 1) * 3 div 2 else vcapacity v)"
    "dynamic u = (dynamic v \<or> ?s = vcapacity v)"
    by blast
  have lu: "?s < length (data u)" using u(3,4) wellformed_data [OF u(2)] by linarith
  from shift_right_ok [OF refl pos lu]
  obtain w1 where w1: "shift_right u pos ?s ?s = Inr (w1, pos)" "same_shape u w1"
    "\<forall>j<length (data u). data w1 ! j = (if pos < j \<and> j \<le> ?s then data u ! (j - 1)
                                             else data u ! j)"
    by blast
  have l1: "length (data w1) = length (data u)" using w1(2) by (simp add: same_shape_def)
  then have "pos < length (data w1)" using pos lu by linarith
  from wr_ok [OF this] obtain w2 where w2: "wr w1 pos x = Inr w2" by blast
  note f = wr_Inr [OF w2]
  have sh: "same_shape u w2" by (rule same_shape_trans [OF w1(2) f(3)])
  have "?s + 1 < 2 ^ 64" using u(3,4) wellformedD(2) [OF u(2)] by linarith
  then have inc: "size_t (int ?s + 1) = ?s + 1" by (rule size_t_inc)
  let ?w = "w2\<lparr>vsize := ?s + 1\<rparr>"
  have s2: "vsize w2 = ?s" using sh u(3) by (simp add: same_shape_def)
  have ins: "insert_single sz d v pos x = Inr (?w, pos)"
    unfolding insert_single_def Let_def u(1) using w1(1) w2 u(3) s2 inc by simp
  have "wellformed N w2" by (rule wellformed_same_shape [OF u(2) sh])
  moreover have "?s + 1 \<le> vcapacity w2" using sh u(3,4) by (simp add: same_shape_def)
  ultimately have wfw: "wellformed N ?w" by (rule wellformed_vsize)
  have el: "elems ?w = take pos (elems v) @ x # drop pos (elems v)"
  proof (rule nth_equalityI)
    show "length (elems ?w) = length (take pos (elems v) @ x # drop pos (elems v))"
      using pos lu l1 f(2) wellformed_size_data [OF wf] by (simp add: elems_def)
  next
    fix j assume "j < length (elems ?w)"
    then have j: "j < ?s + 1" by (simp add: elems_def)
    have eu: "elems v = take ?s (data u)" using u(3,5) by (simp add: elems_def)
    have "elems ?w ! j = (data w1)[pos := x] ! j" using j f(2) by (simp add: elems_def)
    also have "\<dots> = (if j = pos then x else data w1 ! j)"
      using \<open>pos < length (data w1)\<close> by (simp add: nth_list_update)
    also have "\<dots> = (if j = pos then x else if pos < j then data u ! (j - 1) else data u ! j)"
      using w1(3) j lu by auto
    also have "\<dots> = (take pos (elems v) @ x # drop pos (elems v)) ! j"
      using j pos lu by (auto simp: eu nth_append nth_Cons' min_def)
    finally show "elems ?w ! j = (take pos (elems v) @ x # drop pos (elems v)) ! j" .
  qed
  have "vcapacity ?w = vcapacity u" "dynamic ?w = dynamic u"
    using sh by (simp_all add: same_shape_def)
  then show ?thesis using ins wfw el u(6,7) by simp
qed

subsection \<open>Erase\<close>

lemma copy_within_ok:
  "n = l - f \<Longrightarrow> out \<le> f \<Longrightarrow> f \<le> l \<Longrightarrow> l \<le> length (data v) \<Longrightarrow>
   \<exists>w. copy_within v f l out = Inr w \<and> same_shape v w \<and>
       (\<forall>j<length (data v). data w ! j = (if out \<le> j \<and> j < out + (l - f)
                                               then data v ! (j + (f - out))
                                               else data v ! j))"
proof (induction n arbitrary: v f out)
  case 0
  then have "f = l" by simp
  then show ?case by (auto simp: copy_within.simps)
next
  case (Suc n)
  then have fl: "f < l" by simp
  then have flen: "f < length (data v)" "out < length (data v)"
    using Suc.prems by simp_all
  have r: "rd v f = Inr (data v ! f)" by (rule rd_ok [OF flen(1)])
  from wr_ok [OF flen(2)]
  obtain v1 where v1: "wr v out (data v ! f) = Inr v1" by blast
  note g = wr_Inr [OF v1]
  have l1: "length (data v1) = length (data v)" using g(3) by (simp add: same_shape_def)
  have "n = l - (f + 1)" "out + 1 \<le> f + 1" "f + 1 \<le> l" "l \<le> length (data v1)"
    using Suc.prems fl l1 by simp_all
  from Suc.IH [OF this]
  obtain w where w: "copy_within v1 (f + 1) l (out + 1) = Inr w" "same_shape v1 w"
    "\<forall>j<length (data v1). data w ! j =
        (if out + 1 \<le> j \<and> j < out + 1 + (l - (f + 1))
         then data v1 ! (j + (f + 1 - (out + 1))) else data v1 ! j)"
    by blast
  have "copy_within v f l out = Inr w"
    using fl r v1 w(1) by (subst copy_within.simps) simp
  moreover have "same_shape v w" by (rule same_shape_trans [OF g(3) w(2)])
  moreover have "\<forall>j<length (data v). data w ! j =
      (if out \<le> j \<and> j < out + (l - f) then data v ! (j + (f - out)) else data v ! j)"
  proof (intro allI impI)
    fix j assume j: "j < length (data v)"
    then have "data w ! j = (if out + 1 \<le> j \<and> j < out + 1 + (l - (f + 1))
         then data v1 ! (j + (f + 1 - (out + 1))) else data v1 ! j)"
      using w(3) l1 by simp
    then show "data w ! j =
      (if out \<le> j \<and> j < out + (l - f) then data v ! (j + (f - out)) else data v ! j)"
      using g(2) fl j flen Suc.prems(2,4) by (auto simp: nth_list_update)
  qed
  ultimately show ?case by blast
qed

lemma erase_ok:
  assumes wf: "wellformed N v" and pos: "pos < vsize v"
  shows "\<exists>w it. erase N v pos = Inr (w, it) \<and>
           it = (if vsize v - 1 \<le> N \<and> dynamic v then Released pos else Active pos) \<and>
           wellformed N w \<and> vsize w = vsize v - 1 \<and>
           elems w = take pos (elems v) @ drop (pos + 1) (elems v) \<and>
           (dynamic w \<longleftrightarrow> dynamic v \<and> N < vsize v - 1)"
proof -
  let ?s = "vsize v"
  have sl: "?s \<le> length (data v)" by (rule wellformed_size_data [OF wf])
  have "pos \<le> pos + 1" "pos + 1 \<le> ?s" using pos by simp_all
  from copy_within_ok [OF refl this sl]
  obtain v1 where v1: "copy_within v (pos + 1) ?s pos = Inr v1" "same_shape v v1"
    "\<forall>j<length (data v). data v1 ! j =
        (if pos \<le> j \<and> j < pos + (?s - (pos + 1)) then data v ! (j + (pos + 1 - pos))
         else data v ! j)"
    by blast
  have s1: "vsize v1 = ?s" "length (data v1) = length (data v)" "dynamic v1 = dynamic v"
    using v1(2) by (simp_all add: same_shape_def)
  have d: "size_t (int ?s - 1) = ?s - 1"
    using pos wellformedD(4) [OF wf] by (intro size_t_dec) simp_all
  let ?u = "v1\<lparr>vsize := ?s - 1\<rparr>"
  have wf1: "wellformed N v1" by (rule wellformed_same_shape [OF wf v1(2)])
  have "?s - 1 \<le> vcapacity v1" using wellformedD(1) [OF wf1] s1(1) by linarith
  with wf1 have wfu: "wellformed N ?u" by (rule wellformed_vsize)
  from shrink_ok [OF wfu]
  obtain w where w:
    "(if vsize ?u \<le> N \<and> dynamic ?u then decreaseCapacity N ?u else Inr ?u) = Inr w"
    "wellformed N w" "vsize w = vsize ?u" "elems w = elems ?u"
    "dynamic w \<longleftrightarrow> dynamic ?u \<and> N < vsize ?u"
    by blast
  have er: "erase N v pos =
      Inr (w, if vsize v - 1 \<le> N \<and> dynamic v then Released pos else Active pos)"
  proof (cases "vsize ?u \<le> N \<and> dynamic ?u")
    case True
    then show ?thesis
      unfolding erase_def Let_def using v1(1) w(1) s1(1,3) d by simp
  next
    case False
    then show ?thesis
      unfolding erase_def Let_def using v1(1) w(1) s1(1,3) d by auto
  qed
  have el: "elems ?u = take pos (elems v) @ drop (pos + 1) (elems v)"
  proof (rule nth_equalityI)
    show "length (elems ?u) = length (take pos (elems v) @ drop (pos + 1) (elems v))"
      using pos sl s1(2) by (simp add: elems_def)
  next
    fix j assume "j < length (elems ?u)"
    then have j: "j < ?s - 1" by (simp add: elems_def)
    then have "elems ?u ! j = data v1 ! j" by (simp add: elems_def)
    also have "\<dots> = (if pos \<le> j then data v ! (j + 1) else data v ! j)"
      using v1(3) j sl by auto
    also have "\<dots> = (take pos (elems v) @ drop (pos + 1) (elems v)) ! j"
      using j pos sl by (auto simp: elems_def nth_append min_def)
    finally show "elems ?u ! j = (take pos (elems v) @ drop (pos + 1) (elems v)) ! j" .
  qed
  have "vsize w = ?s - 1" using w(3) by simp
  moreover have "dynamic w \<longleftrightarrow> dynamic v \<and> N < ?s - 1" using w(5) s1(3) by simp
  ultimately show ?thesis using er w(2,4) el by simp
qed

subsection \<open>What each operation does to size and capacity\<close>

lemma size_t_inc_le: "size_t (int n + 1) \<le> n + 1"
proof -
  have "int n + 1 = int (n + 1)" by simp
  then show ?thesis by (metis size_t_le)
qed

lemma sum_bindE:
  assumes "(case m of Inl e \<Rightarrow> Inl e | Inr x \<Rightarrow> f x) = Inr y"
  obtains x where "m = Inr x" and "f x = Inr y"
  using assms by (cases m) auto

lemma shift_right_shape:
  "shift_right v p t c = Inr (w, it) \<Longrightarrow> same_shape v w"
proof (induction v p t c rule: shift_right.induct)
  case (1 v inPlc toCopy copyTo)
  show ?case
  proof (cases "toCopy = inPlc")
    case True
    then show ?thesis using "1.prems" by (simp add: shift_right.simps)
  next
    case False
    then obtain x v1 where n0: "\<not> (toCopy = 0 \<or> copyTo = 0)"
      and x: "rd v (toCopy - 1) = Inr x" and v1: "wr v copyTo x = Inr v1"
      and r: "shift_right v1 inPlc (toCopy - 1) (copyTo - 1) = Inr (w, it)"
      using "1.prems" by (subst (asm) shift_right.simps) (auto split: sum.splits if_splits)
    from "1.IH" [OF False n0 x v1 r] wr_Inr(3) [OF v1] show ?thesis
      by (rule same_shape_trans [rotated])
  qed
qed

lemma copy_within_shape:
  "copy_within v f l out = Inr w \<Longrightarrow> same_shape v w"
proof (induction v f l out rule: copy_within.induct)
  case (1 v first lst out)
  show ?case
  proof (cases "first = lst")
    case True
    then show ?thesis using "1.prems" by (simp add: copy_within.simps)
  next
    case False
    then obtain x v1 where n0: "\<not> lst < first"
      and x: "rd v first = Inr x" and v1: "wr v out x = Inr v1"
      and r: "copy_within v1 (first + 1) lst (out + 1) = Inr w"
      using "1.prems" by (subst (asm) copy_within.simps) (auto split: sum.splits if_splits)
    from "1.IH" [OF False n0 x v1 r] wr_Inr(3) [OF v1] show ?thesis
      by (rule same_shape_trans [rotated])
  qed
qed

lemma copy_in_shape: "copy_in xs v out = Inr w \<Longrightarrow> same_shape v w"
proof (induction xs arbitrary: v out)
  case Nil
  then show ?case by simp
next
  case (Cons x xs)
  then obtain v1 where v1: "wr v out x = Inr v1" and r: "copy_in xs v1 (out + 1) = Inr w"
    by (auto split: sum.splits)
  from wr_Inr(3) [OF v1] Cons.IH [OF r] show ?case by (rule same_shape_trans)
qed

lemma iterate_length:
  "iterate v i acc = Inr r \<Longrightarrow> i \<le> vsize v \<and> length r = length acc + (vsize v - i)"
proof (induction v i acc rule: iterate.induct)
  case (1 v it acc)
  show ?case
  proof (cases "it = vsize v")
    case True
    then show ?thesis using "1.prems" by (simp add: iterate.simps)
  next
    case False
    then obtain x where x: "rd v it = Inr x"
      and r: "iterate v (it + 1) (acc @ [x]) = Inr r"
      using "1.prems" by (subst (asm) iterate.simps) (auto split: sum.splits)
    from "1.IH" [OF False x r] show ?thesis by auto
  qed
qed

lemma begin_to_end_length: "begin_to_end v = Inr xs \<Longrightarrow> length xs = vsize v"
  using iterate_length [of v 0 "[]" xs] by (simp add: begin_to_end_def)

lemma push_back_fields:
  assumes "push_back sz d v x = Inr w"
  shows "vsize w = size_t (int (vsize v) + 1)"
    and "vcapacity w = (if vsize v = vcapacity v
           then size_t (int (size_t (int (vsize v) + INCREASE_INC)) * 3) div 2
           else vcapacity v)"
proof -
  obtain u w2 where u: "(if vsize v = vcapacity v then increaseCapacity sz d v else Inr v) = Inr u"
    and w2: "wr u (vsize u) x = Inr w2" and w: "w = w2\<lparr>vsize := size_t (int (vsize w2) + 1)\<rparr>"
    using assms by (auto simp: push_back_def split: sum.splits)
  have su: "vsize u = vsize v" "vcapacity u = (if vsize v = vcapacity v
           then size_t (int (size_t (int (vsize v) + INCREASE_INC)) * 3) div 2
           else vcapacity v)"
    using u increaseCapacity_fields(1,2) [of sz d v u] by (auto split: if_splits)
  have "vsize w2 = vsize u" "vcapacity w2 = vcapacity u"
    using wr_Inr(3) [OF w2] by (simp_all add: same_shape_def)
  then show "vsize w = size_t (int (vsize v) + 1)"
    and "vcapacity w = (if vsize v = vcapacity v
           then size_t (int (size_t (int (vsize v) + INCREASE_INC)) * 3) div 2
           else vcapacity v)"
    using w su by simp_all
qed

lemma insert_single_fields:
  assumes "insert_single sz d v pos x = Inr (w, it)"
  shows "vsize w = size_t (int (vsize v) + 1)"
    and "vcapacity w = (if vsize v = vcapacity v
           then size_t (int (size_t (int (vsize v) + INCREASE_INC)) * 3) div 2
           else vcapacity v)"
proof -
  obtain u w1 c w2 where u: "(if vsize v = vcapacity v then increaseCapacity sz d v else Inr v) = Inr u"
    and w1: "shift_right u pos (vsize u) (vsize u) = Inr (w1, c)"
    and w2: "wr w1 c x = Inr w2" and w: "w = w2\<lparr>vsize := size_t (int (vsize w2) + 1)\<rparr>"
    using assms by (auto simp: insert_single_def Let_def split: sum.splits prod.splits)
  have su: "vsize u = vsize v" "vcapacity u = (if vsize v = vcapacity v
           then size_t (int (size_t (int (vsize v) + INCREASE_INC)) * 3) div 2
           else vcapacity v)"
    using u increaseCapacity_fields(1,2) [of sz d v u] by (auto split: if_splits)
  have "same_shape u w2"
    by (rule same_shape_trans [OF shift_right_shape [OF w1] wr_Inr(3) [OF w2]])
  then have "vsize w2 = vsize u" "vcapacity w2 = vcapacity u"
    by (simp_all add: same_shape_def)
  then show "vsize w = size_t (int (vsize v) + 1)"
    and "vcapacity w = (if vsize v = vcapacity v
           then size_t (int (size_t (int (vsize v) + INCREASE_INC)) * 3) div 2
           else vcapacity v)"
    using w su by simp_all
qed

lemma shrink_fields:
  assumes "(if vsize u \<le> N \<and> dynamic u then decreaseCapacity N u else Inr u) = Inr w"
  shows "vsize w = vsize u" and "vsize u \<le> vcapacity u \<Longrightarrow> vsize w \<le> vcapacity w"
  using assms decreaseCapacity_fields(1,2) [of N u w] by (auto split: if_splits)

lemma pop_back_fields:
  assumes "pop_back N v = Inr w"
  shows "vsize w = size_t (int (vsize v) - 1)"
    and "size_t (int (vsize v) - 1) \<le> vcapacity v \<Longrightarrow> vsize w \<le> vcapacity w"
  using assms shrink_fields [of "v\<lparr>vsize := size_t (int (vsize v) - 1)\<rparr>" N w]
  by (simp_all add: pop_back_def Let_def)

lemma erase_fields:
  assumes "erase N v pos = Inr (w, it)"
  shows "vsize w = size_t (int (vsize v) - 1)"
    and "size_t (int (vsize v) - 1) \<le> vcapacity v \<Longrightarrow> vsize w \<le> vcapacity w"
proof -
  obtain v1 where v1: "copy_within v (pos + 1) (vsize v) pos = Inr v1"
    and w: "(if vsize (v1\<lparr>vsize := size_t (int (vsize v1) - 1)\<rparr>) \<le> N \<and>
                dynamic (v1\<lparr>vsize := size_t (int (vsize v1) - 1)\<rparr>)
             then decreaseCapacity N (v1\<lparr>vsize := size_t (int (vsize v1) - 1)\<rparr>)
             else Inr (v1\<lparr>vsize := size_t (int (vsize v1) - 1)\<rparr>)) = Inr w"
    using assms by (auto simp: erase_def Let_def split: sum.splits if_splits)
  have s: "vsize v1 = vsize v" "vcapacity v1 = vcapacity v"
    using copy_within_shape [OF v1] by (simp_all add: same_shape_def)
  from shrink_fields [OF w] s
  show "vsize w = size_t (int (vsize v) - 1)"
    and "size_t (int (vsize v) - 1) \<le> vcapacity v \<Longrightarrow> vsize w \<le> vcapacity w"
    by simp_all
qed

lemma erase_range_fields:
  assumes "erase_range N v first lst = Inr (w, it)"
  shows "vsize w = size_t (int (vsize v) - (int lst - int first))"
    and "size_t (int (vsize v) - (int lst - int first)) \<le> vcapacity v \<Longrightarrow>
         vsize w \<le> vcapacity w"
proof -
  let ?n = "\<lambda>u. size_t (int (vsize u) - (int lst - int first))"
  obtain v1 where v1: "copy_within v lst (vsize v) first = Inr v1"
    and w: "(if vsize (v1\<lparr>vsize := ?n v1\<rparr>) \<le> N \<and> dynamic (v1\<lparr>vsize := ?n v1\<rparr>)
             then decreaseCapacity N (v1\<lparr>vsize := ?n v1\<rparr>)
             else Inr (v1\<lparr>vsize := ?n v1\<rparr>)) = Inr w"
    using assms by (auto simp: erase_range_def Let_def split: sum.splits if_splits)
  have s: "vsize v1 = vsize v" "vcapacity v1 = vcapacity v"
    using copy_within_shape [OF v1] by (simp_all add: same_shape_def)
  from shrink_fields [OF w] s
  show "vsize w = size_t (int (vsize v) - (int lst - int first))"
    and "size_t (int (vsize v) - (int lst - int first)) \<le> vcapacity v \<Longrightarrow>
         vsize w \<le> vcapacity w"
    by simp_all
qed

lemma clear_fields:
  assumes "clear v = Inr w"
  shows "vsize w = 0" and "vcapacity w = vcapacity v" and "\<not> dynamic w"
  using assms by (auto simp: clear_def split: if_splits sum.splits)

lemma insert_range_fields:
  assumes "insert_range N sz d v pos xs = Inr (w, it)"
  shows "vsize w = size_t (int (vsize v) + int (length xs))"
    and "vcapacity w =
          (if vcapacity v < size_t (int (vsize v) + int (length xs))
           then size_t (int (size_t (int (size_t (int (vsize v) + int (length xs)))
                                     + INCREASE_INC)) * 3) div 2
           else vcapacity v)"
    and "it = pos"
proof -
  let ?v1 = "v\<lparr>vsize := size_t (int (vsize v) + int (length xs))\<rparr>"
  have "\<exists>v2 v3 ys.
      (if vcapacity ?v1 < vsize ?v1 then increaseCapacity sz d ?v1 else Inr ?v1) = Inr v2 \<and>
      copy_in xs v2 pos = Inr v3 \<and> copy_in ys v3 (pos + length xs) = Inr w \<and> it = pos"
    using assms unfolding insert_range_def Let_def
    by (elim sum_bindE) auto
  then obtain v2 v3 ys where
    v2: "(if vcapacity ?v1 < vsize ?v1 then increaseCapacity sz d ?v1 else Inr ?v1) = Inr v2"
    and v3: "copy_in xs v2 pos = Inr v3"
    and w: "copy_in ys v3 (pos + length xs) = Inr w" and it: "it = pos"
    by blast
  have s2: "vsize v2 = vsize ?v1"
    "vcapacity v2 = (if vcapacity ?v1 < vsize ?v1
       then size_t (int (size_t (int (vsize ?v1) + INCREASE_INC)) * 3) div 2
       else vcapacity ?v1)"
    using v2 increaseCapacity_fields(1,2) [of sz d ?v1 v2] by (auto split: if_splits)
  have "same_shape v2 w"
    by (rule same_shape_trans [OF copy_in_shape [OF v3] copy_in_shape [OF w]])
  then have "vsize w = vsize v2" "vcapacity w = vcapacity v2" by (simp_all add: same_shape_def)
  then show "vsize w = size_t (int (vsize v) + int (length xs))"
    and "vcapacity w =
          (if vcapacity v < size_t (int (vsize v) + int (length xs))
           then size_t (int (size_t (int (size_t (int (vsize v) + int (length xs)))
                                     + INCREASE_INC)) * 3) div 2
           else vcapacity v)"
    and "it = pos"
    using s2 it by simp_all
qed

lemma assign_from_fields:
  assumes "assign_from N sz d v rhs = Inr w"
  shows "vsize w = size_t (int (vsize v) + int (vsize rhs))"
    and "vcapacity w =
          (if vcapacity rhs < size_t (int (vsize v) + int (vsize rhs))
           then size_t (int (size_t (int (size_t (int (vsize v) + int (vsize rhs)))
                                     + INCREASE_INC)) * 3) div 2
           else vcapacity rhs)"
proof -
  define v1 where "v1 = (if dynamic v then v\<lparr>curData := Dangling\<rparr> else v)"
  define v2 where "v2 = v1\<lparr>vcapacity := vcapacity rhs\<rparr>"
  define v3 where "v3 = (if vcapacity v2 > N
                     then v2\<lparr>curData :=
                              Heap (new_array (size_t (int (vcapacity v2) * int sz)) d),
                            dynamic := True\<rparr>
                     else v2)"
  have v3: "vsize v3 = vsize v" "vcapacity v3 = vcapacity rhs"
    by (simp_all add: v3_def v2_def v1_def)
  have "\<exists>xs p. begin_to_end rhs = Inr xs \<and> insert_range N sz d v3 0 xs = Inr p \<and> fst p = w"
    using assms unfolding assign_from_def Let_def v3_def v2_def v1_def
    by (elim sum_bindE) (auto split: prod.splits)
  then obtain xs it where xs: "begin_to_end rhs = Inr xs"
    and w: "insert_range N sz d v3 0 xs = Inr (w, it)"
    by (metis prod.collapse)
  have l: "length xs = vsize rhs" by (rule begin_to_end_length [OF xs])
  from insert_range_fields(1,2) [OF w] v3 l
  show "vsize w = size_t (int (vsize v) + int (vsize rhs))"
    and "vcapacity w =
          (if vcapacity rhs < size_t (int (vsize v) + int (vsize rhs))
           then size_t (int (size_t (int (size_t (int (vsize v) + int (vsize rhs)))
                                     + INCREASE_INC)) * 3) div 2
           else vcapacity rhs)"
    by simp_all
qed

subsection \<open>Range insert\<close>

lemma copy_in_ok:
  "out + length xs \<le> length (data v) \<Longrightarrow>
   \<exists>w. copy_in xs v out = Inr w \<and> same_shape v w \<and>
       data w = take out (data v) @ xs @ drop (out + length xs) (data v)"
proof (induction xs arbitrary: v out)
  case Nil
  then show ?case by simp
next
  case (Cons x xs)
  then have o: "out < length (data v)" by simp
  from wr_ok [OF o] obtain v1 where v1: "wr v out x = Inr v1" by blast
  note f = wr_Inr [OF v1]
  have l1: "length (data v1) = length (data v)" using f(3) by (simp add: same_shape_def)
  then have "out + 1 + length xs \<le> length (data v1)" using Cons.prems by simp
  from Cons.IH [OF this]
  obtain w where w: "copy_in xs v1 (out + 1) = Inr w" "same_shape v1 w"
    "data w = take (out + 1) (data v1) @ xs @ drop (out + 1 + length xs) (data v1)"
    by blast
  have "copy_in (x # xs) v out = Inr w" using v1 w(1) by simp
  moreover have "same_shape v w" by (rule same_shape_trans [OF f(3) w(2)])
  moreover have "data w = take out (data v) @ (x # xs) @ drop (out + length (x # xs)) (data v)"
    using w(3) f(2) o by (simp add: take_upd_snoc)
  ultimately show ?case by blast
qed

lemma save_after_push_all:
  "n = vsize v - i \<Longrightarrow> i \<le> vsize v \<Longrightarrow> vsize v \<le> length (data v) \<Longrightarrow>
   save_after sz d v i a = push_all sz d a (drop i (elems v))"
proof (induction n arbitrary: i a)
  case 0
  then have "i = vsize v" by simp
  then show ?case using "0.prems"(3) by (simp add: save_after.simps elems_def)
next
  case (Suc n)
  then have lt: "i < vsize v" by simp
  then have r: "rd v i = Inr (data v ! i)" using Suc.prems(3) by (simp add: rd_ok)
  have dr: "drop i (elems v) = data v ! i # drop (i + 1) (elems v)"
    using Cons_nth_drop_Suc [of i "elems v"] lt Suc.prems(3) by (simp add: elems_def)
  have ih: "\<And>a1. save_after sz d v (i + 1) a1 = push_all sz d a1 (drop (i + 1) (elems v))"
    using Suc.IH [of "i + 1"] Suc.prems lt by simp
  show ?case
    using lt r ih by (subst save_after.simps) (simp add: dr split: sum.splits)
qed

lemma insert_one_at_a_time_ok:
  "wellformed N v \<Longrightarrow> pos \<le> vsize v \<Longrightarrow> 0 < sz \<Longrightarrow>
   sz * (3 * (vsize v + length xs)) < 2 ^ 64 \<Longrightarrow>
   \<exists>w. insert_one_at_a_time sz d v pos xs = Inr w \<and> wellformed N w \<and>
       vsize w = vsize v + length xs \<and>
       elems w = take pos (elems v) @ xs @ drop pos (elems v)"
proof (induction xs arbitrary: v pos)
  case Nil
  then show ?case by simp
next
  case (Cons x xs)
  have "sz * (3 * (vsize v + 1)) \<le> sz * (3 * (vsize v + length (x # xs)))"
    by (intro mult_le_mono2) simp
  then have b1: "sz * (3 * (vsize v + 1)) < 2 ^ 64" using Cons.prems(4) by linarith
  from insert_single_ok [OF Cons.prems(1,2,3) b1, of d x]
  obtain u where u: "insert_single sz d v pos x = Inr (u, pos)" "wellformed N u"
    "vsize u = vsize v + 1" "elems u = take pos (elems v) @ x # drop pos (elems v)"
    by blast
  have p1: "pos + 1 \<le> vsize u" using Cons.prems(2) u(3) by simp
  have b2: "sz * (3 * (vsize u + length xs)) < 2 ^ 64" using Cons.prems(4) u(3) by simp
  from Cons.IH [OF u(2) p1 Cons.prems(3) b2]
  obtain w where w: "insert_one_at_a_time sz d u (pos + 1) xs = Inr w" "wellformed N w"
    "vsize w = vsize u + length xs"
    "elems w = take (pos + 1) (elems u) @ xs @ drop (pos + 1) (elems u)"
    by blast
  have pl: "pos \<le> length (elems v)"
    using Cons.prems(2) wellformed_size_data [OF Cons.prems(1)] by (simp add: elems_def)
  have "insert_one_at_a_time sz d v pos (x # xs) = Inr w" using u(1) w(1) by simp
  moreover have "elems w = take pos (elems v) @ (x # xs) @ drop pos (elems v)"
    using w(4) u(4) pl by simp
  ultimately show ?case using w(2,3) u(3) by simp
qed

lemma insert_range_ok:
  assumes wf: "wellformed N v" and pos: "pos \<le> vsize v" and sz: "0 < sz"
    and bound: "sz * (3 * (vsize v + length xs + 1)) < 2 ^ 64"
    and fit: "vsize v + length xs \<le> length (data v)"
  shows "\<exists>w. insert_range N sz d v pos xs = Inr (w, pos) \<and> wellformed N w \<and>
           vsize w = vsize v + length xs \<and>
           elems w = take pos (elems v) @ xs @ drop pos (elems v) \<and>
           vcapacity w = (if vcapacity v < vsize v + length xs
                          then (vsize v + length xs + 1) * 3 div 2 else vcapacity v)"
proof -
  let ?s = "vsize v" and ?n = "length xs" and ?ys = "drop pos (elems v)"
  have sl: "?s \<le> length (data v)" by (rule wellformed_size_data [OF wf])
  have les: "length (elems v) = ?s" using sl by (simp add: elems_def)
  have b3: "3 * (?s + ?n + 1) < (2::nat) ^ 64"
  proof -
    have "3 * (?s + ?n + 1) \<le> sz * (3 * (?s + ?n + 1))" using sz by simp
    then show ?thesis using bound by linarith
  qed
  \<comment> \<open>the elements behind the position are saved in a fresh container\<close>
  have "sz * (3 * (vsize (VLVector N d) + length ?ys)) \<le> sz * (3 * (?s + ?n + 1))"
    by (intro mult_le_mono2) (simp add: VLVector_def les)
  then have ba: "sz * (3 * (vsize (VLVector N d) + length ?ys)) < 2 ^ 64"
    using bound by linarith
  from push_all_ok [OF wellformed_VLVector [OF wellformedD(6) [OF wf]] sz ba]
  obtain a where a: "push_all sz d (VLVector N d) ?ys = Inr a" "wellformed N a"
    "elems a = elems (VLVector N d) @ ?ys"
    by blast
  have sa: "save_after sz d v pos (VLVector N d) = Inr a"
    using save_after_push_all [OF refl pos sl, of sz d "VLVector N d"] a(1) by simp
  have ya: "begin_to_end a = Inr ?ys" using begin_to_end_ok [OF a(2)] a(3) by simp
  \<comment> \<open>the size is raised, and the array grows if it has to\<close>
  have "?s + ?n < 2 ^ 64" using b3 by simp
  then have m: "size_t (int ?s + int ?n) = ?s + ?n"
  proof -
    assume "?s + ?n < 2 ^ 64"
    moreover have "int ?s + int ?n = int (?s + ?n)" by simp
    ultimately show ?thesis by (metis size_t_nat)
  qed
  let ?v1 = "v\<lparr>vsize := ?s + ?n\<rparr>"
  have "\<exists>u. (if vcapacity ?v1 < vsize ?v1 then increaseCapacity sz d ?v1 else Inr ?v1) = Inr u \<and>
          wellformed N u \<and> vsize u = ?s + ?n \<and>
          take (?s + ?n) (data u) = take (?s + ?n) (data v) \<and>
          vcapacity u = (if vcapacity v < ?s + ?n then (?s + ?n + 1) * 3 div 2
                         else vcapacity v)"
  proof (cases "vcapacity v < ?s + ?n")
    case True
    have l1: "vsize ?v1 \<le> length (data ?v1)" using fit by simp
    have d1: "dynamic ?v1 \<longrightarrow> (\<exists>h. curData ?v1 = Heap h)"
      using wf by (auto simp: wellformed_def split: buffer.splits)
    have bb: "sz * (3 * (vsize ?v1 + 1)) < 2 ^ 64" using bound by simp
    from increaseCapacity_ok [OF l1 d1 sz bb, of d]
    obtain u t where u: "increaseCapacity sz d ?v1 = Inr u" "vsize u = ?s + ?n"
      "vcapacity u = (?s + ?n + 1) * 3 div 2" "dynamic u" "statData u = statData v"
      "curData u = Heap t" "vcapacity u \<le> length t" "?s + ?n < vcapacity u"
      "vcapacity u < 2 ^ 64"
      "take (?s + ?n) t = take (?s + ?n) (data v)"
      by auto
    have "N < vcapacity u" using wellformedD(5) [OF wf] True u(8) by linarith
    moreover have "vsize u \<le> vcapacity u" using u(2,8) by linarith
    ultimately have "wellformed N u"
      using u(4,5,6,7,9) wellformedD(3) [OF wf] by (simp add: wellformed_def)
    moreover have "take (?s + ?n) (data u) = take (?s + ?n) (data v)"
      using u(6,10) by (simp add: data_def)
    ultimately show ?thesis using True u(1,2,3) by simp
  next
    case False
    then have "?s + ?n \<le> vcapacity v" by simp
    with wf have "wellformed N ?v1" by (rule wellformed_vsize)
    then show ?thesis using False by simp
  qed
  then obtain u where u:
    "(if vcapacity ?v1 < vsize ?v1 then increaseCapacity sz d ?v1 else Inr ?v1) = Inr u"
    "wellformed N u" "vsize u = ?s + ?n"
    "take (?s + ?n) (data u) = take (?s + ?n) (data v)"
    "vcapacity u = (if vcapacity v < ?s + ?n then (?s + ?n + 1) * 3 div 2 else vcapacity v)"
    by blast
  have lu: "?s + ?n \<le> length (data u)"
    using wellformed_size_data [OF u(2)] u(3) by simp
  \<comment> \<open>the new elements, then the saved ones\<close>
  have "pos + ?n \<le> length (data u)" using pos lu by linarith
  from copy_in_ok [OF this]
  obtain w3 where w3: "copy_in xs u pos = Inr w3" "same_shape u w3"
    "data w3 = take pos (data u) @ xs @ drop (pos + ?n) (data u)"
    by blast
  have l3: "length (data w3) = length (data u)" using w3(2) by (simp add: same_shape_def)
  have "pos + ?n + length ?ys \<le> length (data w3)" using pos lu l3 les by simp
  from copy_in_ok [OF this]
  obtain w where w: "copy_in ?ys w3 (pos + ?n) = Inr w" "same_shape w3 w"
    "data w = take (pos + ?n) (data w3) @ ?ys @ drop (pos + ?n + length ?ys) (data w3)"
    by blast
  have sh: "same_shape u w" by (rule same_shape_trans [OF w3(2) w(2)])
  have ir: "insert_range N sz d v pos xs = Inr (w, pos)"
    unfolding insert_range_def Let_def m sa using u(1) w3(1) ya w(1) by simp
  have wfw: "wellformed N w" by (rule wellformed_same_shape [OF u(2) sh])
  have sw: "vsize w = ?s + ?n" "vcapacity w = vcapacity u"
    using sh u(3) by (simp_all add: same_shape_def)
  have pu: "pos \<le> length (data u)" using pos lu by linarith
  have "take pos (data u) = take pos (take (?s + ?n) (data u))" using pos by (simp add: min_def)
  also have "\<dots> = take pos (take (?s + ?n) (data v))" by (simp only: u(4))
  also have "\<dots> = take pos (elems v)" using pos by (simp add: elems_def min_def)
  finally have tp: "take pos (data u) = take pos (elems v)" .
  have "take (pos + ?n) (data w3) = take pos (data u) @ xs"
    using w3(3) pu by simp
  then have dw: "data w = take pos (elems v) @ xs @ ?ys @ drop (pos + ?n + length ?ys) (data w3)"
    using w(3) tp by simp
  have "length (take pos (elems v) @ xs @ ?ys) = ?s + ?n" using pos les by simp
  then have "take (?s + ?n) (data w) = take pos (elems v) @ xs @ ?ys"
    using dw by (metis append.assoc append_eq_conv_conj)
  then have el: "elems w = take pos (elems v) @ xs @ ?ys" using sw(1) by (simp add: elems_def)
  show ?thesis using ir wfw sw el u(5) by simp
qed

text \<open>Where the range insert runs to completion it leaves the elements that the
  one-at-a-time insertion leaves, and returns the position of the first inserted element.\<close>

lemma insert_range_as_one_at_a_time:
  assumes "wellformed N v" and "pos \<le> vsize v" and "0 < sz"
    and "sz * (3 * (vsize v + length xs + 1)) < 2 ^ 64"
    and "vsize v + length xs \<le> length (data v)"
  shows "\<exists>w u. insert_range N sz d v pos xs = Inr (w, pos) \<and>
           insert_one_at_a_time sz d v pos xs = Inr u \<and> vsize w = vsize u \<and>
           elems w = elems u"
proof -
  have "sz * (3 * (vsize v + length xs)) \<le> sz * (3 * (vsize v + length xs + 1))"
    by (intro mult_le_mono2) simp
  then have b: "sz * (3 * (vsize v + length xs)) < 2 ^ 64" using assms(4) by linarith
  from insert_range_ok [OF assms, of d] insert_one_at_a_time_ok [OF assms(1,2,3) b, of d]
  show ?thesis by force
qed

subsection \<open>Assignment to an empty container\<close>

text \<open>The copy constructor assigns to a freshly constructed container, and that one case of
  \<^verbatim>\<open>operator=\<close> yields a copy of the source.\<close>

lemma copy_constructor_ok:
  assumes wf: "wellformed N rhs" and sz: "0 < sz"
    and bound: "sz * (3 * (vsize rhs + 1)) < 2 ^ 64"
    and alloc: "sz * vcapacity rhs < 2 ^ 64"
  shows "\<exists>w. VLVector_copy N sz d rhs = Inr w \<and> wellformed N w \<and>
           vsize w = vsize rhs \<and> elems w = elems rhs \<and> vcapacity w = vcapacity rhs"
proof -
  let ?c = "vcapacity rhs"
  let ?v2 = "(VLVector N d)\<lparr>vcapacity := ?c\<rparr>"
  let ?v3 = "(if N < ?c
              then ?v2\<lparr>curData := Heap (new_array (size_t (int ?c * int sz)) d),
                       dynamic := True\<rparr>
              else ?v2)"
  have l: "size_t (int ?c * int sz) = ?c * sz"
  proof -
    have "?c * sz < 2 ^ 64" using alloc by (simp add: mult.commute)
    moreover have "int ?c * int sz = int (?c * sz)" by simp
    ultimately show ?thesis by (metis size_t_nat)
  qed
  have "?c \<le> ?c * sz" using sz by simp
  then have wf3: "wellformed N ?v3"
    using wellformedD(2,5) [OF wf]
    by (simp add: wellformed_def VLVector_def l new_array_def)
  have s3: "vsize ?v3 = 0" "vcapacity ?v3 = ?c" by (simp_all add: VLVector_def)
  have e3: "elems ?v3 = []" using s3(1) by (simp add: elems_def)
  have xs: "begin_to_end rhs = Inr (elems rhs)" by (rule begin_to_end_ok [OF wf])
  have len: "length (elems rhs) = vsize rhs"
    using wellformed_size_data [OF wf] by (simp add: elems_def)
  have p: "0 \<le> vsize ?v3" by simp
  have b: "sz * (3 * (vsize ?v3 + length (elems rhs) + 1)) < 2 ^ 64"
    using bound len s3(1) by simp
  have "vsize rhs \<le> ?c" by (rule wellformedD(1) [OF wf])
  then have fit: "vsize ?v3 + length (elems rhs) \<le> length (data ?v3)"
    using wellformed_data [OF wf3] s3 len by linarith
  from insert_range_ok [OF wf3 p sz b fit, of d]
  obtain w where w: "insert_range N sz d ?v3 0 (elems rhs) = Inr (w, 0)" "wellformed N w"
    "vsize w = vsize ?v3 + length (elems rhs)"
    "elems w = take 0 (elems ?v3) @ elems rhs @ drop 0 (elems ?v3)"
    "vcapacity w = (if vcapacity ?v3 < vsize ?v3 + length (elems rhs)
                    then (vsize ?v3 + length (elems rhs) + 1) * 3 div 2 else vcapacity ?v3)"
    by blast
  have nd: "\<not> dynamic (VLVector N d)" by (simp add: VLVector_def)
  have "VLVector_copy N sz d rhs = Inr w"
    unfolding VLVector_copy_def assign_from_def Let_def using nd xs w(1)
    by (cases "N < ?c") simp_all
  moreover have "vsize w = vsize rhs" using w(3) s3(1) len by simp
  moreover have "elems w = elems rhs" using w(4) e3 by simp
  moreover have "vcapacity w = ?c" using w(5) s3 len \<open>vsize rhs \<le> ?c\<close> by simp
  ultimately show ?thesis using w(2) by blast
qed

text \<open>A self-assignment returns at once.\<close>

lemma operator_assign_self:
  "st a = Some v \<Longrightarrow> operator_assign N sz d st a a = Inr st"
  by (simp add: operator_assign_def)

subsection \<open>Range insert when the stray read of the growth loop returns a value\<close>

lemma rd_stray_rd: "rd v i = Inr x \<Longrightarrow> rd_stray junk v i = Inr x"
  by (simp add: rd_def rd_stray_def split: if_splits)

lemma copy_loop_stray_extends:
  "copy_loop v i temp = Inr t \<Longrightarrow> copy_loop_stray junk v i temp = Inr t"
proof (induction v i temp rule: copy_loop.induct)
  case (1 v i temp)
  show ?case
  proof (cases "i < vsize v")
    case False
    then show ?thesis using "1.prems" by (simp add: copy_loop.simps copy_loop_stray.simps)
  next
    case True
    then obtain x where x: "rd v i = Inr x" and l: "i < length temp"
      and r: "copy_loop v (i + 1) (temp[i := x]) = Inr t"
      using "1.prems" by (subst (asm) copy_loop.simps) (auto split: sum.splits if_splits)
    from "1.IH" [OF True x l r] True l rd_stray_rd [OF x, of junk]
    show ?thesis by (subst copy_loop_stray.simps) simp
  qed
qed

lemma increaseCapacity_stray_extends:
  assumes "increaseCapacity sz d v = Inr w"
  shows "increaseCapacity_stray junk sz d v = Inr w"
proof -
  let ?c = "size_t (int (size_t (int (vsize v) + INCREASE_INC)) * 3) div 2"
  let ?v1 = "v\<lparr>vcapacity := ?c\<rparr>"
  from assms obtain t where t: "copy_loop ?v1 0 (new_array (size_t (int sz * int ?c)) d) = Inr t"
    and w: "(if dynamic ?v1 then
                (case delete_array (curData ?v1) of
                   Inl e \<Rightarrow> Inl e
                 | Inr u \<Rightarrow> Inr (?v1\<lparr>curData := Heap t, dynamic := True\<rparr>))
              else Inr (?v1\<lparr>curData := Heap t, dynamic := True\<rparr>)) = Inr w"
    unfolding increaseCapacity_def Let_def by (elim sum_bindE) blast
  show ?thesis
    unfolding increaseCapacity_stray_def Let_def
    using copy_loop_stray_extends [OF t, of junk] w by simp
qed

text \<open>Where the range insert completes without a stray read, the two readings agree.\<close>

lemma insert_range_stray_extends:
  assumes "insert_range N sz d v pos xs = Inr r"
  shows "insert_range_stray junk N sz d v pos xs = Inr r"
proof -
  let ?v1 = "v\<lparr>vsize := size_t (int (vsize v) + int (length xs))\<rparr>"
  have "\<exists>a v2 v3 ys v4. save_after sz d v pos (VLVector N d) = Inr a \<and>
      (if vcapacity ?v1 < vsize ?v1 then increaseCapacity sz d ?v1 else Inr ?v1) = Inr v2 \<and>
      copy_in xs v2 pos = Inr v3 \<and> begin_to_end a = Inr ys \<and>
      copy_in ys v3 (pos + length xs) = Inr v4 \<and> r = (v4, pos)"
    using assms unfolding insert_range_def Let_def
    by (elim sum_bindE) auto
  then obtain a v2 v3 ys v4 where a: "save_after sz d v pos (VLVector N d) = Inr a"
    and v2: "(if vcapacity ?v1 < vsize ?v1 then increaseCapacity sz d ?v1 else Inr ?v1) = Inr v2"
    and v3: "copy_in xs v2 pos = Inr v3" and ys: "begin_to_end a = Inr ys"
    and v4: "copy_in ys v3 (pos + length xs) = Inr v4" and r: "r = (v4, pos)"
    by blast
  have "(if vcapacity ?v1 < vsize ?v1 then increaseCapacity_stray junk sz d ?v1 else Inr ?v1)
          = Inr v2"
    using v2 increaseCapacity_stray_extends [of sz d ?v1 v2 junk] by (auto split: if_splits)
  then show ?thesis
    unfolding insert_range_stray_def Let_def a using v3 ys v4 r by simp
qed

lemma copy_loop_stray_ok:
  "i \<le> vsize v \<Longrightarrow> curData v \<noteq> Dangling \<Longrightarrow> vsize v \<le> length temp \<Longrightarrow>
   \<exists>t. copy_loop_stray junk v i temp = Inr t \<and> length t = length temp \<and>
       (\<forall>j<length t. t ! j =
          (if i \<le> j \<and> j < vsize v
           then (if j < length (data v) then data v ! j else junk j)
           else temp ! j))"
proof (induction junk v i temp rule: copy_loop_stray.induct)
  case (1 junk v i temp)
  show ?case
  proof (cases "i < vsize v")
    case False
    then show ?thesis using "1.prems" by (auto simp add: copy_loop_stray.simps)
  next
    case True
    let ?x = "if i < length (data v) then data v ! i else junk i"
    have r: "rd_stray junk v i = Inr ?x" using "1.prems"(2) by (simp add: rd_stray_def)
    have it: "i < length temp" using True "1.prems"(3) by simp
    from "1.IH" [OF True r it] True "1.prems"
    obtain t where t: "copy_loop_stray junk v (i + 1) (temp[i := ?x]) = Inr t"
      "length t = length temp"
      "\<forall>j<length t. t ! j =
          (if i + 1 \<le> j \<and> j < vsize v
           then (if j < length (data v) then data v ! j else junk j)
           else temp[i := ?x] ! j)"
      by auto
    have "copy_loop_stray junk v i temp = Inr t"
      using True r it t(1) by (subst copy_loop_stray.simps) simp
    moreover have "\<forall>j<length t. t ! j =
          (if i \<le> j \<and> j < vsize v
           then (if j < length (data v) then data v ! j else junk j)
           else temp ! j)"
      using t(2,3) it True by (auto simp: nth_list_update)
    ultimately show ?thesis using t(2) by blast
  qed
qed

lemma increaseCapacity_stray_ok:
  assumes live: "curData v \<noteq> Dangling"
    and dyn: "dynamic v \<longrightarrow> (\<exists>h. curData v = Heap h)"
    and sz: "0 < sz" and bound: "sz * (3 * (vsize v + 1)) < 2 ^ 64"
  shows "\<exists>w t. increaseCapacity_stray junk sz d v = Inr w \<and> vsize w = vsize v \<and>
           vcapacity w = (vsize v + 1) * 3 div 2 \<and> dynamic w \<and>
           statData w = statData v \<and> curData w = Heap t \<and>
           vcapacity w \<le> length t \<and> vsize v < vcapacity w \<and> vcapacity w < 2 ^ 64 \<and>
           (\<forall>j. j < vsize v \<and> j < length (data v) \<longrightarrow> t ! j = data v ! j)"
proof -
  let ?c = "(vsize v + 1) * 3 div 2"
  have b3: "3 * (vsize v + 1) < (2::nat) ^ 64"
  proof -
    have "3 * (vsize v + 1) \<le> sz * (3 * (vsize v + 1))" using sz by simp
    then show ?thesis using bound by linarith
  qed
  have c: "size_t (int (size_t (int (vsize v) + INCREASE_INC)) * 3) div 2 = ?c"
    by (rule grow_capacity [OF b3])
  have "sz * ?c \<le> sz * (3 * (vsize v + 1))"
    by (rule mult_le_mono2) simp
  then have "sz * ?c < 2 ^ 64" using bound by linarith
  then have l: "size_t (int sz * int ?c) = sz * ?c"
    by (metis size_t_nat of_nat_mult)
  have cs: "vsize v < ?c" by simp
  have cz: "?c \<le> sz * ?c" using sz by simp
  then have "vsize v \<le> sz * ?c" using cs by linarith
  then have fit: "vsize v \<le> length (new_array (sz * ?c) d)"
    by (simp add: new_array_def)
  let ?v1 = "v\<lparr>vcapacity := ?c\<rparr>"
  have live1: "curData ?v1 \<noteq> Dangling" using live by simp
  from copy_loop_stray_ok [of 0 ?v1 "new_array (sz * ?c) d" junk] live1 fit
  obtain t where t: "copy_loop_stray junk ?v1 0 (new_array (sz * ?c) d) = Inr t"
      "length t = sz * ?c"
      "\<forall>j<length t. t ! j =
          (if j < vsize v then (if j < length (data v) then data v ! j else junk j)
           else new_array (sz * ?c) d ! j)"
    by (auto simp: new_array_def)
  have nth: "\<forall>j. j < vsize v \<and> j < length (data v) \<longrightarrow> t ! j = data v ! j"
  proof (intro allI impI)
    fix j assume j: "j < vsize v \<and> j < length (data v)"
    then have "j < length t" using t(2) \<open>vsize v \<le> sz * ?c\<close> by linarith
    then show "t ! j = data v ! j" using t(3) j by simp
  qed
  have del: "dynamic v \<Longrightarrow> delete_array (curData v) = Inr ()"
    using dyn by (auto simp: delete_array_def)
  have "increaseCapacity_stray junk sz d v = Inr (?v1\<lparr>curData := Heap t, dynamic := True\<rparr>)"
    unfolding increaseCapacity_stray_def Let_def c l using t(1) del by simp
  moreover have "?c \<le> length t" using t(2) cz by simp
  moreover have "?c < 2 ^ 64"
  proof -
    have "?c \<le> 3 * (vsize v + 1)" by simp
    then show ?thesis using b3 by linarith
  qed
  ultimately show ?thesis using cs nth by simp
qed

lemma insert_range_stray_ok:
  assumes wf: "wellformed N v" and pos: "pos \<le> vsize v" and sz: "0 < sz"
    and bound: "sz * (3 * (vsize v + length xs + 1)) < 2 ^ 64"
  shows "\<exists>w. insert_range_stray junk N sz d v pos xs = Inr (w, pos) \<and> wellformed N w \<and>
           vsize w = vsize v + length xs \<and>
           elems w = take pos (elems v) @ xs @ drop pos (elems v) \<and>
           vcapacity w = (if vcapacity v < vsize v + length xs
                          then (vsize v + length xs + 1) * 3 div 2 else vcapacity v)"
proof -
  let ?s = "vsize v" and ?n = "length xs" and ?ys = "drop pos (elems v)"
  have sl: "?s \<le> length (data v)" by (rule wellformed_size_data [OF wf])
  have les: "length (elems v) = ?s" using sl by (simp add: elems_def)
  have b3: "3 * (?s + ?n + 1) < (2::nat) ^ 64"
  proof -
    have "3 * (?s + ?n + 1) \<le> sz * (3 * (?s + ?n + 1))" using sz by simp
    then show ?thesis using bound by linarith
  qed
  have "sz * (3 * (vsize (VLVector N d) + length ?ys)) \<le> sz * (3 * (?s + ?n + 1))"
    by (intro mult_le_mono2) (simp add: VLVector_def les)
  then have ba: "sz * (3 * (vsize (VLVector N d) + length ?ys)) < 2 ^ 64"
    using bound by linarith
  from push_all_ok [OF wellformed_VLVector [OF wellformedD(6) [OF wf]] sz ba]
  obtain a where a: "push_all sz d (VLVector N d) ?ys = Inr a" "wellformed N a"
    "elems a = elems (VLVector N d) @ ?ys"
    by blast
  have sa: "save_after sz d v pos (VLVector N d) = Inr a"
    using save_after_push_all [OF refl pos sl, of sz d "VLVector N d"] a(1) by simp
  have ya: "begin_to_end a = Inr ?ys" using begin_to_end_ok [OF a(2)] a(3) by simp
  have "?s + ?n < 2 ^ 64" using b3 by simp
  then have m: "size_t (int ?s + int ?n) = ?s + ?n" by (rule size_t_add)
  let ?v1 = "v\<lparr>vsize := ?s + ?n\<rparr>"
  have "\<exists>u. (if vcapacity ?v1 < vsize ?v1 then increaseCapacity_stray junk sz d ?v1
              else Inr ?v1) = Inr u \<and>
          wellformed N u \<and> vsize u = ?s + ?n \<and>
          take pos (data u) = take pos (elems v) \<and>
          vcapacity u = (if vcapacity v < ?s + ?n then (?s + ?n + 1) * 3 div 2
                         else vcapacity v)"
  proof (cases "vcapacity v < ?s + ?n")
    case True
    have live: "curData ?v1 \<noteq> Dangling"
      using wf by (auto simp: wellformed_def split: if_splits buffer.splits)
    have d1: "dynamic ?v1 \<longrightarrow> (\<exists>h. curData ?v1 = Heap h)"
      using wf by (auto simp: wellformed_def split: buffer.splits)
    have bb: "sz * (3 * (vsize ?v1 + 1)) < 2 ^ 64" using bound by simp
    from increaseCapacity_stray_ok [OF live d1 sz bb, of junk d]
    obtain u t where u: "increaseCapacity_stray junk sz d ?v1 = Inr u" "vsize u = ?s + ?n"
      "vcapacity u = (?s + ?n + 1) * 3 div 2" "dynamic u" "statData u = statData v"
      "curData u = Heap t" "vcapacity u \<le> length t" "?s + ?n < vcapacity u"
      "vcapacity u < 2 ^ 64"
      "\<forall>j. j < ?s + ?n \<and> j < length (data v) \<longrightarrow> t ! j = data v ! j"
      by auto
    have "N < vcapacity u" using wellformedD(5) [OF wf] True u(8) by linarith
    moreover have "vsize u \<le> vcapacity u" using u(2,8) by linarith
    ultimately have wfu: "wellformed N u"
      using u(4,5,6,7,9) wellformedD(3) [OF wf] by (simp add: wellformed_def)
    have du: "data u = t" using u(6) by (simp add: data_def)
    have "take pos (data u) = take pos (elems v)"
    proof (rule nth_equalityI)
      show "length (take pos (data u)) = length (take pos (elems v))"
        using pos les du u(7,8) by simp
    next
      fix j assume "j < length (take pos (data u))"
      then have j: "j < pos" by simp
      then have "t ! j = data v ! j" using u(10) pos sl by simp
      then show "take pos (data u) ! j = take pos (elems v) ! j"
        using j pos du by (simp add: elems_def)
    qed
    then show ?thesis using True u(1,2,3) wfu by simp
  next
    case False
    then have "?s + ?n \<le> vcapacity v" by simp
    with wf have "wellformed N ?v1" by (rule wellformed_vsize)
    moreover have "take pos (data ?v1) = take pos (elems v)"
      using pos by (simp add: elems_def min_def)
    ultimately show ?thesis using False by simp
  qed
  then obtain u where u:
    "(if vcapacity ?v1 < vsize ?v1 then increaseCapacity_stray junk sz d ?v1 else Inr ?v1)
       = Inr u"
    "wellformed N u" "vsize u = ?s + ?n"
    "take pos (data u) = take pos (elems v)"
    "vcapacity u = (if vcapacity v < ?s + ?n then (?s + ?n + 1) * 3 div 2 else vcapacity v)"
    by blast
  have lu: "?s + ?n \<le> length (data u)"
    using wellformed_size_data [OF u(2)] u(3) by simp
  have "pos + ?n \<le> length (data u)" using pos lu by linarith
  from copy_in_ok [OF this]
  obtain w3 where w3: "copy_in xs u pos = Inr w3" "same_shape u w3"
    "data w3 = take pos (data u) @ xs @ drop (pos + ?n) (data u)"
    by blast
  have l3: "length (data w3) = length (data u)" using w3(2) by (simp add: same_shape_def)
  have "pos + ?n + length ?ys \<le> length (data w3)" using pos lu l3 les by simp
  from copy_in_ok [OF this]
  obtain w where w: "copy_in ?ys w3 (pos + ?n) = Inr w" "same_shape w3 w"
    "data w = take (pos + ?n) (data w3) @ ?ys @ drop (pos + ?n + length ?ys) (data w3)"
    by blast
  have sh: "same_shape u w" by (rule same_shape_trans [OF w3(2) w(2)])
  have ir: "insert_range_stray junk N sz d v pos xs = Inr (w, pos)"
    unfolding insert_range_stray_def Let_def m sa using u(1) w3(1) ya w(1) by simp
  have wfw: "wellformed N w" by (rule wellformed_same_shape [OF u(2) sh])
  have sw: "vsize w = ?s + ?n" "vcapacity w = vcapacity u"
    using sh u(3) by (simp_all add: same_shape_def)
  have pu: "pos \<le> length (data u)" using pos lu by linarith
  have "take (pos + ?n) (data w3) = take pos (data u) @ xs"
    using w3(3) pu by simp
  then have dw: "data w = take pos (elems v) @ xs @ ?ys @ drop (pos + ?n + length ?ys) (data w3)"
    using w(3) u(4) by simp
  have "length (take pos (elems v) @ xs @ ?ys) = ?s + ?n" using pos les by simp
  then have "take (?s + ?n) (data w) = take pos (elems v) @ xs @ ?ys"
    using dw by (metis append.assoc append_eq_conv_conj)
  then have el: "elems w = take pos (elems v) @ xs @ ?ys" using sw(1) by (simp add: elems_def)
  show ?thesis using ir wfw sw el u(5) by simp
qed

text \<open>On every container that satisfies the invariants of the data model, the range insert
  leaves the elements that the one-at-a-time insertion leaves and returns the position of the
  first inserted element, whatever values the stray read of its growth returns.\<close>

lemma insert_range_stray_as_one_at_a_time:
  assumes "wellformed N v" and "pos \<le> vsize v" and "0 < sz"
    and "sz * (3 * (vsize v + length xs + 1)) < 2 ^ 64"
  shows "\<exists>w u. insert_range_stray junk N sz d v pos xs = Inr (w, pos) \<and>
           insert_one_at_a_time sz d v pos xs = Inr u \<and> vsize w = vsize u \<and>
           elems w = elems u"
proof -
  have "sz * (3 * (vsize v + length xs)) \<le> sz * (3 * (vsize v + length xs + 1))"
    by (intro mult_le_mono2) simp
  then have b: "sz * (3 * (vsize v + length xs)) < 2 ^ 64" using assms(4) by linarith
  from insert_range_stray_ok [OF assms, of junk d]
    insert_one_at_a_time_ok [OF assms(1,2,3) b, of d]
  show ?thesis by force
qed

section \<open>Sequences of push_back, the range constructor and checked access\<close>

text \<open>
  Claim C6. Starting from an empty container, after the \<open>k\<close>-th of a sequence of
  \<^verbatim>\<open>push_back\<close> calls the size is \<open>k\<close>, the container is dynamic exactly when
  \<open>k > StaticCapacity\<close>, the size does not exceed the capacity, and the capacity is
  \<open>StaticCapacity\<close> while the container is static. \<open>StaticCapacity\<close> is a \<^verbatim>\<open>size_t\<close>, and
  the byte count of the largest array requested stays below \<open>2 ^ 64\<close>.
\<close>

theorem push_back_sequence:
  assumes "N < 2 ^ 64" and "0 < sz" and "sz * (3 * length xs) < 2 ^ 64" and "k \<le> length xs"
  shows "\<exists>v. push_all sz d (VLVector N d) (take k xs) = Inr v \<and> vsize v = k \<and>
           (dynamic v \<longleftrightarrow> N < k) \<and> vsize v \<le> vcapacity v \<and>
           (\<not> dynamic v \<longrightarrow> vcapacity v = N)"
proof -
  have "sz * (3 * k) \<le> sz * (3 * length xs)"
    using assms(4) by (intro mult_le_mono2) simp
  then have "sz * (3 * k) < 2 ^ 64" using assms(3) by linarith
  moreover have "vsize (VLVector N d) + length (take k xs) = k"
    using assms(4) by (simp add: VLVector_def)
  ultimately have b: "sz * (3 * (vsize (VLVector N d) + length (take k xs))) < 2 ^ 64"
    by simp
  from push_all_ok [OF wellformed_VLVector [OF assms(1)] assms(2) b]
  obtain w where w: "push_all sz d (VLVector N d) (take k xs) = Inr w" "wellformed N w"
    "vsize w = vsize (VLVector N d) + length (take k xs)"
    "(dynamic (VLVector N d) \<longleftrightarrow> N < vsize (VLVector N d)) \<longrightarrow> (dynamic w \<longleftrightarrow> N < vsize w)"
    by blast
  have "vsize w = k" using w(3) assms(4) by (simp add: VLVector_def)
  moreover have "dynamic w \<longleftrightarrow> N < vsize w" using w(4) by (simp add: VLVector_def)
  moreover have "vsize w \<le> vcapacity w" "\<not> dynamic w \<longrightarrow> vcapacity w = N"
    using w(2) by (simp_all add: wellformed_def)
  ultimately show ?thesis using w(1) by auto
qed

theorem push_back_sequence_witness:
  "(4::nat) < 2 ^ 64 \<and> (0::nat) < 4 \<and> (4::nat) * (3 * length [1, 2, 3, 4, 5::int]) < 2 ^ 64 \<and>
   (3::nat) \<le> length [1, 2, 3, 4, 5::int] \<and> (5::nat) \<le> length [1, 2, 3, 4, 5::int] \<and>
   (\<exists>v. push_all 4 0 (VLVector 4 0) [1, 2, 3::int] = Inr v \<and> vsize v = 3 \<and> \<not> dynamic v \<and>
        vcapacity v = 4) \<and>
   (\<exists>v. push_all 4 0 (VLVector 4 0) [1, 2, 3, 4, 5::int] = Inr v \<and> vsize v = 5 \<and> dynamic v \<and>
        vsize v \<le> vcapacity v)"
proof -
  have h: "(4::nat) < 2 ^ 64" "(0::nat) < 4"
    "(4::nat) * (3 * length [1, 2, 3, 4, 5::int]) < 2 ^ 64"
    "(3::nat) \<le> length [1, 2, 3, 4, 5::int]" "(5::nat) \<le> length [1, 2, 3, 4, 5::int]"
    by simp_all
  show ?thesis
    using h push_back_sequence [OF h(1,2,3,4), of 0] push_back_sequence [OF h(1,2,3,5), of 0]
    by auto
qed

text \<open>
  Claim C10. A container built by the range constructor from the sequence \<open>S\<close>, read from
  \<^verbatim>\<open>begin()\<close> to \<^verbatim>\<open>end()\<close>, yields exactly \<open>S\<close> in order.
\<close>

theorem range_constructor_round_trip:
  assumes "N < 2 ^ 64" and "0 < sz" and "sz * (3 * length S) < 2 ^ 64"
  shows "\<exists>v. VLVector_range N sz d S = Inr v \<and> begin_to_end v = Inr S"
proof -
  have b: "sz * (3 * (vsize (VLVector N d) + length S)) < 2 ^ 64"
    using assms(3) by (simp add: VLVector_def)
  from push_all_ok [OF wellformed_VLVector [OF assms(1)] assms(2) b]
  obtain w where w: "push_all sz d (VLVector N d) S = Inr w" "wellformed N w"
    "elems w = elems (VLVector N d) @ S"
    by blast
  have "begin_to_end w = Inr S" using begin_to_end_ok [OF w(2)] w(3) by simp
  then show ?thesis using w(1) by (auto simp: VLVector_range_def)
qed

theorem range_constructor_round_trip_witness:
  "(2::nat) < 2 ^ 64 \<and> (0::nat) < 4 \<and> (4::nat) * (3 * length [7, 8, 9::int]) < 2 ^ 64 \<and>
   (\<exists>v. VLVector_range 2 4 0 [7, 8, 9::int] = Inr v \<and> begin_to_end v = Inr [7, 8, 9])"
proof -
  have h: "(2::nat) < 2 ^ 64" "(0::nat) < 4" "(4::nat) * (3 * length [7, 8, 9::int]) < 2 ^ 64"
    by simp_all
  show ?thesis using h range_constructor_round_trip [OF h, of 0] by simp
qed

text \<open>
  Claim C8. \<^verbatim>\<open>at(idx)\<close> throws \<^verbatim>\<open>std::out_of_range\<close> exactly when \<open>idx \<ge> size\<close>; the call
  leaves the container as it was, whatever its outcome; and for \<open>idx < size\<close>, on a container
  whose active array holds its \<open>size\<close> elements (as the invariants of the data model
  demand), it returns the element at index \<open>idx\<close>.
\<close>

theorem at_checked:
  "(fst (at v idx) = Inl OutOfRange \<longleftrightarrow> vsize v \<le> idx) \<and> snd (at v idx) = v \<and>
   (vsize v \<le> length (data v) \<and> idx < vsize v \<longrightarrow> fst (at v idx) = Inr (elems v ! idx))"
  by (auto simp: at_def rd_def elems_def)

theorem at_checked_witness:
  "wellformed 2 \<lparr>statData = [5, 6::int], dynamic = False, vsize = 2, vcapacity = 2,
                  curData = StatData\<rparr> \<and>
   vsize \<lparr>statData = [5, 6::int], dynamic = False, vsize = 2, vcapacity = 2,
          curData = StatData\<rparr>
     \<le> length (data \<lparr>statData = [5, 6::int], dynamic = False, vsize = 2, vcapacity = 2,
                        curData = StatData\<rparr>) \<and>
   (1::nat) < 2 \<and>
   fst (at \<lparr>statData = [5, 6::int], dynamic = False, vsize = 2, vcapacity = 2,
            curData = StatData\<rparr> 1) = Inr 6 \<and>
   fst (at \<lparr>statData = [5, 6::int], dynamic = False, vsize = 2, vcapacity = 2,
            curData = StatData\<rparr> 2) = Inl OutOfRange"
proof -
  let ?v = "\<lparr>statData = [5, 6::int], dynamic = False, vsize = 2, vcapacity = 2,
             curData = StatData\<rparr>"
  have h: "wellformed 2 ?v" "vsize ?v \<le> length (data ?v)"
    by (simp_all add: wellformed_def data_def)
  show ?thesis
    using h at_checked [of ?v 1] at_checked [of ?v 2]
    by (simp add: elems_def data_def)
qed

subsection \<open>Size never exceeds capacity\<close>

lemma grow_ge:
  assumes "3 * (n + 1) < (2::nat) ^ 64"
  shows "n + 1 \<le> size_t (int (size_t (int n + INCREASE_INC)) * 3) div 2"
proof -
  have "n + 1 \<le> (n + 1) * 3 div 2" by simp
  then show ?thesis by (simp only: grow_capacity [OF assms])
qed

lemma size_t_sub_le:
  assumes "first \<le> lst" and "lst \<le> s"
  shows "size_t (int s - (int lst - int first)) \<le> s"
proof -
  have "int s - (int lst - int first) = int (s - (lst - first))" using assms by linarith
  then have "size_t (int s - (int lst - int first)) \<le> s - (lst - first)"
    by (metis size_t_le)
  then show ?thesis by linarith
qed

lemma append_one_bounded:
  assumes inv: "s \<le> c" and bound: "3 * (s + 1) < (2::nat) ^ 64"
  shows "size_t (int s + 1) \<le>
         (if s = c then size_t (int (size_t (int s + INCREASE_INC)) * 3) div 2 else c)"
proof -
  have "size_t (int s + 1) \<le> s + 1" by (rule size_t_inc_le)
  moreover have "s = c \<Longrightarrow> s + 1 \<le> size_t (int (size_t (int s + INCREASE_INC)) * 3) div 2"
    by (rule grow_ge [OF bound])
  moreover have "s \<noteq> c \<Longrightarrow> s + 1 \<le> c" using inv by linarith
  ultimately show ?thesis by (cases "s = c") simp_all
qed

lemma append_many_bounded:
  assumes bound: "3 * (s + n + 1) < (2::nat) ^ 64"
  shows "size_t (int s + int n) \<le>
         (if c < size_t (int s + int n)
          then size_t (int (size_t (int (size_t (int s + int n)) + INCREASE_INC)) * 3) div 2
          else c)"
proof -
  have "s + n < 2 ^ 64" using bound by simp
  then have m: "size_t (int s + int n) = s + n" by (rule size_t_add)
  have "s + n + 1 \<le> size_t (int (size_t (int (s + n) + INCREASE_INC)) * 3) div 2"
    by (rule grow_ge [OF bound])
  then show ?thesis unfolding m by (cases "c < s + n") simp_all
qed

text \<open>
  Claim C4, as amended. In every state that the public operations reach from a freshly
  constructed container, each operation being called within its precondition and running to
  completion, and the element count staying below a third of \<open>2 ^ 64\<close>, the size does not
  exceed the capacity. (\<^verbatim>\<open>pop_back\<close> on an empty container is outside this: see the
  counterexample below.)
\<close>

theorem reachable_size_le_capacity:
  "reachable N sz d v \<Longrightarrow> vsize v \<le> vcapacity v"
proof (induction rule: reachable.induct)
  case construct
  then show ?case by (simp add: VLVector_def)
next
  case (pushBack v x w)
  show ?case
    unfolding push_back_fields [OF pushBack.hyps(3)]
    by (rule append_one_bounded [OF pushBack.IH pushBack.hyps(2)])
next
  case (popBack v w)
  have "size_t (int (vsize v) - 1) \<le> vsize v - 1" by (rule size_t_dec_le [OF popBack.hyps(2)])
  then have "size_t (int (vsize v) - 1) \<le> vcapacity v" using popBack.IH by linarith
  then show ?case by (rule pop_back_fields(2) [OF popBack.hyps(3)])
next
  case (insertOne v pos x w it)
  show ?case
    unfolding insert_single_fields [OF insertOne.hyps(4)]
    by (rule append_one_bounded [OF insertOne.IH insertOne.hyps(3)])
next
  case (insertRange v pos xs w it)
  show ?case
    unfolding insert_range_fields(1,2) [OF insertRange.hyps(4)]
    by (rule append_many_bounded [OF insertRange.hyps(3)])
next
  case (eraseOne v pos w it)
  then have "0 < vsize v" by simp
  then have "size_t (int (vsize v) - 1) \<le> vsize v - 1" by (rule size_t_dec_le)
  then have "size_t (int (vsize v) - 1) \<le> vcapacity v" using eraseOne.IH by linarith
  then show ?case by (rule erase_fields(2) [OF eraseOne.hyps(3)])
next
  case (eraseRange v first lst w it)
  have "size_t (int (vsize v) - (int lst - int first)) \<le> vsize v"
    by (rule size_t_sub_le [OF eraseRange.hyps(2,3)])
  then have "size_t (int (vsize v) - (int lst - int first)) \<le> vcapacity v"
    using eraseRange.IH by linarith
  then show ?case by (rule erase_range_fields(2) [OF eraseRange.hyps(4)])
next
  case (clearAll v w)
  then show ?case using clear_fields(1) [OF clearAll.hyps(2)] by simp
next
  case (assign v rhs w)
  show ?case
    unfolding assign_from_fields [OF assign.hyps(4)]
    by (rule append_many_bounded [OF assign.hyps(3)])
qed

lemma push_one_eval:
  "push_back 4 0 (VLVector 4 (0::int)) 1 =
   Inr \<lparr>statData = [1, 0, 0, 0], dynamic = False, vsize = 1, vcapacity = 4,
        curData = StatData\<rparr>"
  by code_simp

theorem reachable_size_le_capacity_witness:
  "reachable 4 4 (0::int)
     \<lparr>statData = [1, 0, 0, 0], dynamic = False, vsize = 1, vcapacity = 4, curData = StatData\<rparr> \<and>
   vsize \<lparr>statData = [1, 0, 0, 0::int], dynamic = False, vsize = 1, vcapacity = 4,
          curData = StatData\<rparr>
   \<le> vcapacity \<lparr>statData = [1, 0, 0, 0::int], dynamic = False, vsize = 1, vcapacity = 4,
          curData = StatData\<rparr>"
proof -
  have "3 * (vsize (VLVector 4 (0::int)) + 1) < (2::nat) ^ 64" by (simp add: VLVector_def)
  from pushBack [OF construct this push_one_eval]
  have r: "reachable 4 4 (0::int)
     \<lparr>statData = [1, 0, 0, 0], dynamic = False, vsize = 1, vcapacity = 4, curData = StatData\<rparr>" .
  from r reachable_size_le_capacity [OF r] show ?thesis by blast
qed

text \<open>The claim as stated fails for \<^verbatim>\<open>pop_back\<close> on an empty container: \<^verbatim>\<open>--_size\<close> wraps
  around to \<open>2 ^ 64 - 1\<close>, far above the capacity 4.\<close>

theorem pop_back_empty_counterexample:
  "pop_back 4 (VLVector 4 (0::int)) =
     Inr \<lparr>statData = replicate 4 0, dynamic = False, vsize = 18446744073709551615,
          vcapacity = 4, curData = StatData\<rparr> \<and>
   \<not> vsize \<lparr>statData = replicate 4 (0::int), dynamic = False, vsize = 18446744073709551615,
            vcapacity = 4, curData = StatData\<rparr>
     \<le> vcapacity \<lparr>statData = replicate 4 (0::int), dynamic = False,
            vsize = 18446744073709551615, vcapacity = 4, curData = StatData\<rparr>"
  by (simp add: pop_back_def VLVector_def size_t_def Let_def)

section \<open>Shrinking on pop_back, insert followed by erase, and the growth formula\<close>

text \<open>
  Claim C7. A dynamic container that holds \<open>StaticCapacity + 1\<close> elements and satisfies the
  invariants of the data model becomes static again with one \<^verbatim>\<open>pop_back\<close>: its capacity is
  \<open>StaticCapacity\<close>, it lives in the inline array, and the remaining \<open>StaticCapacity\<close> elements
  are the first ones of before, in order.
\<close>

theorem pop_back_to_static:
  assumes "wellformed N v" and "dynamic v" and "vsize v = N + 1"
  shows "\<exists>w. pop_back N v = Inr w \<and> \<not> dynamic w \<and> curData w = StatData \<and>
           vcapacity w = N \<and> vsize w = N \<and> elems w = take N (elems v)"
proof -
  have "0 < vsize v" using assms(3) by simp
  from pop_back_ok [OF assms(1) this]
  obtain w where w: "pop_back N v = Inr w" "wellformed N w" "vsize w = vsize v - 1"
    "elems w = take (vsize v - 1) (elems v)"
    "dynamic w \<longleftrightarrow> dynamic v \<and> N < vsize v - 1"
    "vcapacity w = (if vsize v - 1 \<le> N then N else vcapacity v)"
    by blast
  have nd: "\<not> dynamic w" using w(5) assms(3) by simp
  then have "curData w = StatData" using w(2) by (simp add: wellformed_def)
  then show ?thesis using w(1,3,4,6) nd assms(3) by simp
qed

theorem pop_back_to_static_witness:
  "wellformed 2 \<lparr>statData = [1, 2], dynamic = True, vsize = 3, vcapacity = 4,
                  curData = Heap ([1, 2, 3::int] @ replicate 13 0)\<rparr> \<and>
   dynamic \<lparr>statData = [1, 2], dynamic = True, vsize = 3, vcapacity = 4,
            curData = Heap ([1, 2, 3::int] @ replicate 13 0)\<rparr> \<and>
   vsize \<lparr>statData = [1, 2], dynamic = True, vsize = 3, vcapacity = 4,
          curData = Heap ([1, 2, 3::int] @ replicate 13 0)\<rparr> = 2 + 1 \<and>
   (\<exists>w. pop_back 2 \<lparr>statData = [1, 2], dynamic = True, vsize = 3, vcapacity = 4,
                     curData = Heap ([1, 2, 3::int] @ replicate 13 0)\<rparr> = Inr w \<and>
        \<not> dynamic w \<and> curData w = StatData \<and> vcapacity w = 2 \<and> vsize w = 2 \<and>
        elems w = [1, 2])"
proof -
  let ?v = "\<lparr>statData = [1, 2], dynamic = True, vsize = 3, vcapacity = 4,
             curData = Heap ([1, 2, 3::int] @ replicate 13 0)\<rparr>"
  have h: "wellformed 2 ?v" "dynamic ?v" "vsize ?v = 2 + 1"
    by (simp_all add: wellformed_def)
  have "take 2 (elems ?v) = [1, 2]" by (simp add: elems_def data_def)
  then show ?thesis using h pop_back_to_static [OF h] by simp
qed

text \<open>On a container that satisfies the invariants of the data model, inserting a value
  at a position of \<^verbatim>\<open>[begin(), end()]\<close> and erasing at the iterator that the insert returned
  gives back the original sequence: the same size and the same elements in order. The byte
  count of the array a growth requests stays below \<open>2 ^ 64\<close>.\<close>

lemma insert_then_erase:
  assumes "wellformed N v" and "pos \<le> vsize v" and "0 < sz"
    and "sz * (3 * (vsize v + 1)) < 2 ^ 64"
  shows "\<exists>w it u it'. insert_single sz d v pos x = Inr (w, it) \<and> it = pos \<and>
           erase N w it = Inr (u, it') \<and> vsize u = vsize v \<and> elems u = elems v"
proof -
  from insert_single_ok [OF assms, of d x]
  obtain w where w: "insert_single sz d v pos x = Inr (w, pos)" "wellformed N w"
    "vsize w = vsize v + 1" "elems w = take pos (elems v) @ x # drop pos (elems v)"
    by blast
  have "pos < vsize w" using assms(2) w(3) by simp
  from erase_ok [OF w(2) this]
  obtain u it' where u: "erase N w pos = Inr (u, it')" "vsize u = vsize w - 1"
    "elems u = take pos (elems w) @ drop (pos + 1) (elems w)"
    by blast
  have "pos \<le> length (elems v)"
    using assms(2) wellformed_size_data [OF assms(1)] by (simp add: elems_def)
  then have "elems u = elems v" using u(3) w(4) by simp
  then show ?thesis using w(1,3) u(1,2) by simp
qed

text \<open>
  Claim C3, as amended. A \<^verbatim>\<open>push_back\<close> or a single-element insert grows exactly when the
  container is full, and the new capacity is then \<open>(size + 1) * 3 / 2\<close> for the size before
  the insertion. A range insert of \<open>n\<close> elements grows when \<open>size + n\<close> exceeds the capacity;
  it adds \<open>n\<close> to \<^verbatim>\<open>_size\<close> before it calls \<^verbatim>\<open>_increaseCapacity\<close>, so whenever it completes the
  new capacity is \<open>(size + n + 1) * 3 / 2\<close>.
\<close>

theorem growth_capacity:
  assumes "wellformed N v" and "0 < sz"
    and "sz * (3 * (vsize v + length xs + 1)) < 2 ^ 64"
  shows "(vsize v = vcapacity v \<longrightarrow>
            (\<exists>w. push_back sz d v x = Inr w \<and> vcapacity w = (vsize v + 1) * 3 div 2)) \<and>
         (vsize v = vcapacity v \<and> pos \<le> vsize v \<longrightarrow>
            (\<exists>w. insert_single sz d v pos x = Inr (w, pos) \<and>
                 vcapacity w = (vsize v + 1) * 3 div 2)) \<and>
         (vcapacity v < vsize v + length xs \<and>
          insert_range N sz d v pos xs = Inr (w', it) \<longrightarrow>
            vcapacity w' = (vsize v + length xs + 1) * 3 div 2)"
proof -
  have "sz * (3 * (vsize v + 1)) \<le> sz * (3 * (vsize v + length xs + 1))"
    by (intro mult_le_mono2) simp
  then have b1: "sz * (3 * (vsize v + 1)) < 2 ^ 64" using assms(3) by linarith
  have "3 * (vsize v + length xs + 1) \<le> sz * (3 * (vsize v + length xs + 1))"
    using assms(2) by simp
  then have bn: "3 * (vsize v + length xs + 1) < (2::nat) ^ 64" using assms(3) by linarith
  have a: "vsize v = vcapacity v \<longrightarrow>
            (\<exists>w. push_back sz d v x = Inr w \<and> vcapacity w = (vsize v + 1) * 3 div 2)"
    using push_back_ok [OF assms(1,2) b1, of d x] by auto
  have b: "vsize v = vcapacity v \<and> pos \<le> vsize v \<longrightarrow>
            (\<exists>w. insert_single sz d v pos x = Inr (w, pos) \<and>
                 vcapacity w = (vsize v + 1) * 3 div 2)"
  proof
    assume h: "vsize v = vcapacity v \<and> pos \<le> vsize v"
    then have p: "pos \<le> vsize v" by simp
    from insert_single_ok [OF assms(1) p assms(2) b1, of d x] h
    show "\<exists>w. insert_single sz d v pos x = Inr (w, pos) \<and>
                 vcapacity w = (vsize v + 1) * 3 div 2"
      by auto
  qed
  have c: "vcapacity v < vsize v + length xs \<and>
          insert_range N sz d v pos xs = Inr (w', it) \<longrightarrow>
            vcapacity w' = (vsize v + length xs + 1) * 3 div 2"
  proof
    assume h: "vcapacity v < vsize v + length xs \<and>
          insert_range N sz d v pos xs = Inr (w', it)"
    have "vsize v + length xs < 2 ^ 64" using bn by simp
    then have m: "size_t (int (vsize v) + int (length xs)) = vsize v + length xs"
      by (rule size_t_add)
    have "vcapacity w' =
        size_t (int (size_t (int (vsize v + length xs) + INCREASE_INC)) * 3) div 2"
      using insert_range_fields(2) [of N sz d v pos xs w' it] h unfolding m by simp
    then show "vcapacity w' = (vsize v + length xs + 1) * 3 div 2"
      by (simp only: grow_capacity [OF bn])
  qed
  from a b c show ?thesis by blast
qed

lemma seven_pushed_eval:
  "push_all 4 0 (VLVector 4 (0::int)) [1, 2, 3, 4, 5, 6, 7] =
   Inr \<lparr>statData = [1, 2, 3, 4], dynamic = True, vsize = 7, vcapacity = 7,
        curData = Heap ([1, 2, 3, 4, 5, 6, 7] @ replicate 21 0)\<rparr>"
  by code_simp

lemma seven_range_insert_eval:
  "insert_range 4 4 0
     \<lparr>statData = [1, 2, 3, 4], dynamic = True, vsize = 7, vcapacity = 7,
      curData = Heap ([1, 2, 3, 4, 5, 6, 7] @ replicate 21 (0::int))\<rparr> 7 [8, 9] =
   Inr (\<lparr>statData = [1, 2, 3, 4], dynamic = True, vsize = 9, vcapacity = 15,
         curData = Heap ([1, 2, 3, 4, 5, 6, 7, 8, 9] @ replicate 51 0)\<rparr>, 7)"
  by code_simp

theorem growth_capacity_witness:
  "push_all 4 0 (VLVector 4 (0::int)) [1, 2, 3, 4, 5, 6, 7] =
     Inr \<lparr>statData = [1, 2, 3, 4], dynamic = True, vsize = 7, vcapacity = 7,
          curData = Heap ([1, 2, 3, 4, 5, 6, 7] @ replicate 21 0)\<rparr> \<and>
   wellformed 4 \<lparr>statData = [1, 2, 3, 4], dynamic = True, vsize = 7, vcapacity = 7,
                  curData = Heap ([1, 2, 3, 4, 5, 6, 7] @ replicate 21 (0::int))\<rparr> \<and>
   (0::nat) < 4 \<and> (4::nat) * (3 * (7 + length [8, 9::int] + 1)) < 2 ^ 64 \<and>
   (\<exists>w. push_back 4 0 \<lparr>statData = [1, 2, 3, 4], dynamic = True, vsize = 7, vcapacity = 7,
                      curData = Heap ([1, 2, 3, 4, 5, 6, 7] @ replicate 21 (0::int))\<rparr> 8
          = Inr w \<and> vcapacity w = 12) \<and>
   (\<exists>w. insert_single 4 0 \<lparr>statData = [1, 2, 3, 4], dynamic = True, vsize = 7, vcapacity = 7,
                      curData = Heap ([1, 2, 3, 4, 5, 6, 7] @ replicate 21 (0::int))\<rparr> 7 8
          = Inr (w, 7) \<and> vcapacity w = 12) \<and>
   insert_range 4 4 0 \<lparr>statData = [1, 2, 3, 4], dynamic = True, vsize = 7, vcapacity = 7,
                      curData = Heap ([1, 2, 3, 4, 5, 6, 7] @ replicate 21 (0::int))\<rparr> 7 [8, 9]
     = Inr (\<lparr>statData = [1, 2, 3, 4], dynamic = True, vsize = 9, vcapacity = 15,
             curData = Heap ([1, 2, 3, 4, 5, 6, 7, 8, 9] @ replicate 51 0)\<rparr>, 7) \<and>
   vcapacity \<lparr>statData = [1, 2, 3, 4], dynamic = True, vsize = 9, vcapacity = 15,
             curData = Heap ([1, 2, 3, 4, 5, 6, 7, 8, 9] @ replicate 51 (0::int))\<rparr>
     = (7 + 2 + 1) * 3 div 2 \<and>
   wellformed 4 \<lparr>statData = [1, 2, 3, 4::int], dynamic = False, vsize = 4, vcapacity = 4,
                  curData = StatData\<rparr> \<and>
   (\<exists>w. push_back 4 0 \<lparr>statData = [1, 2, 3, 4::int], dynamic = False, vsize = 4, vcapacity = 4,
                      curData = StatData\<rparr> 5 = Inr w \<and> vcapacity w = 7)"
proof -
  let ?v = "\<lparr>statData = [1, 2, 3, 4], dynamic = True, vsize = 7, vcapacity = 7,
             curData = Heap ([1, 2, 3, 4, 5, 6, 7] @ replicate 21 (0::int))\<rparr>"
  let ?r = "\<lparr>statData = [1, 2, 3, 4], dynamic = True, vsize = 9, vcapacity = 15,
             curData = Heap ([1, 2, 3, 4, 5, 6, 7, 8, 9] @ replicate 51 (0::int))\<rparr>"
  let ?f = "\<lparr>statData = [1, 2, 3, 4::int], dynamic = False, vsize = 4, vcapacity = 4,
             curData = StatData\<rparr>"
  have h: "wellformed 4 ?v" "(0::nat) < 4"
    "(4::nat) * (3 * (vsize ?v + length [8, 9::int] + 1)) < 2 ^ 64"
    by (simp_all add: wellformed_def)
  have g: "wellformed 4 ?f" "(4::nat) * (3 * (vsize ?f + length ([]::int list) + 1)) < 2 ^ 64"
    by (simp_all add: wellformed_def)
  note t1 = growth_capacity [OF h, of 0 8 7 ?r 7]
  note t2 = growth_capacity [OF g(1) h(2) g(2), of 0 5 0 ?f 0]
  have "\<exists>w. push_back 4 0 ?v 8 = Inr w \<and> vcapacity w = 12" using t1 by simp
  moreover have "\<exists>w. insert_single 4 0 ?v 7 8 = Inr (w, 7) \<and> vcapacity w = 12"
    using t1 by simp
  moreover have "vcapacity ?r = (7 + 2 + 1) * 3 div 2"
    using t1 seven_range_insert_eval by simp
  moreover have "\<exists>w. push_back 4 0 ?f 5 = Inr w \<and> vcapacity w = 7" using t2 by simp
  ultimately show ?thesis
    using seven_pushed_eval seven_range_insert_eval h(1) g(1) by simp
qed

text \<open>The claim as stated fails for the range insert: a container of 5 elements with capacity
  7 that receives 3 more grows to capacity \<open>(5 + 3 + 1) * 3 / 2 = 13\<close>, not to
  \<open>(5 + 1) * 3 / 2 = 9\<close>.\<close>

theorem range_insert_growth_counterexample:
  "push_all 4 0 (VLVector 4 (0::int)) [1, 2, 3, 4, 5] =
     Inr \<lparr>statData = [1, 2, 3, 4], dynamic = True, vsize = 5, vcapacity = 7,
          curData = Heap ([1, 2, 3, 4, 5] @ replicate 23 0)\<rparr> \<and>
   insert_range 4 4 0
     \<lparr>statData = [1, 2, 3, 4], dynamic = True, vsize = 5, vcapacity = 7,
      curData = Heap ([1, 2, 3, 4, 5] @ replicate 23 (0::int))\<rparr> 5 [6, 7, 8] =
     Inr (\<lparr>statData = [1, 2, 3, 4], dynamic = True, vsize = 8, vcapacity = 13,
           curData = Heap ([1, 2, 3, 4, 5, 6, 7, 8] @ replicate 44 0)\<rparr>, 5) \<and>
   (13::nat) \<noteq> (5 + 1) * 3 div 2"
  by code_simp

section \<open>Where the code departs from its documentation\<close>

text \<open>
  Claim C1. \<^verbatim>\<open>clear()\<close> returns a dynamic container to the inline array and sets the size to 0,
  but it leaves \<^verbatim>\<open>_capacity\<close> at the heap array's value: with \<open>StaticCapacity = 4\<close>, after
  five \<^verbatim>\<open>push_back\<close> calls and \<^verbatim>\<open>clear()\<close> the container is static with capacity 7.
  \<^verbatim>\<open>_decreaseCapacity\<close> resets the capacity on the same transition.
\<close>

theorem clear_keeps_heap_capacity:
  "push_all 4 0 (VLVector 4 (0::int)) [1, 2, 3, 4, 5] =
     Inr \<lparr>statData = [1, 2, 3, 4], dynamic = True, vsize = 5, vcapacity = 7,
          curData = Heap ([1, 2, 3, 4, 5] @ replicate 23 0)\<rparr> \<and>
   clear \<lparr>statData = [1, 2, 3, 4], dynamic = True, vsize = 5, vcapacity = 7,
          curData = Heap ([1, 2, 3, 4, 5] @ replicate 23 (0::int))\<rparr> =
     Inr \<lparr>statData = [1, 2, 3, 4], dynamic = False, vsize = 0, vcapacity = 7,
          curData = StatData\<rparr> \<and>
   (7::nat) \<noteq> 4"
  by code_simp

lemma assign_from_eval:
  "assign_from 4 4 0
     \<lparr>statData = [1, 0, 0, 0::int], dynamic = False, vsize = 1, vcapacity = 4,
      curData = StatData\<rparr>
     \<lparr>statData = [2, 0, 0, 0], dynamic = False, vsize = 1, vcapacity = 4, curData = StatData\<rparr> =
   Inr \<lparr>statData = [2, 1, 0, 0], dynamic = False, vsize = 2, vcapacity = 4,
        curData = StatData\<rparr>"
  by code_simp

text \<open>
  Claim C2. \<^verbatim>\<open>operator=\<close> does not empty the destination before it inserts the source range
  at \<^verbatim>\<open>begin()\<close>: with \<open>StaticCapacity = 4\<close>, assigning the container \<open>[2]\<close> at address 1 to
  the container \<open>[1]\<close> at address 0 leaves \<open>[2, 1]\<close> of size 2 at address 0.
\<close>

theorem operator_assign_keeps_old_elements:
  "push_all 4 0 (VLVector 4 (0::int)) [1] =
     Inr \<lparr>statData = [1, 0, 0, 0], dynamic = False, vsize = 1, vcapacity = 4,
          curData = StatData\<rparr> \<and>
   push_all 4 0 (VLVector 4 (0::int)) [2] =
     Inr \<lparr>statData = [2, 0, 0, 0], dynamic = False, vsize = 1, vcapacity = 4,
          curData = StatData\<rparr> \<and>
   operator_assign 4 4 0
     [0 \<mapsto> \<lparr>statData = [1, 0, 0, 0::int], dynamic = False, vsize = 1, vcapacity = 4,
            curData = StatData\<rparr>,
      1 \<mapsto> \<lparr>statData = [2, 0, 0, 0], dynamic = False, vsize = 1, vcapacity = 4,
            curData = StatData\<rparr>] 0 1 =
     Inr ([0 \<mapsto> \<lparr>statData = [1, 0, 0, 0::int], dynamic = False, vsize = 1, vcapacity = 4,
                 curData = StatData\<rparr>,
           1 \<mapsto> \<lparr>statData = [2, 0, 0, 0], dynamic = False, vsize = 1, vcapacity = 4,
                 curData = StatData\<rparr>]
          (0 \<mapsto> \<lparr>statData = [2, 1, 0, 0], dynamic = False, vsize = 2, vcapacity = 4,
                 curData = StatData\<rparr>)) \<and>
   elems \<lparr>statData = [2, 1, 0, 0::int], dynamic = False, vsize = 2, vcapacity = 4,
          curData = StatData\<rparr> = [2, 1] \<and>
   elems \<lparr>statData = [2, 0, 0, 0::int], dynamic = False, vsize = 1, vcapacity = 4,
          curData = StatData\<rparr> = [2]"
proof -
  have a: "push_all 4 0 (VLVector 4 (0::int)) [1] =
     Inr \<lparr>statData = [1, 0, 0, 0], dynamic = False, vsize = 1, vcapacity = 4,
          curData = StatData\<rparr>"
    by code_simp
  have b: "push_all 4 0 (VLVector 4 (0::int)) [2] =
     Inr \<lparr>statData = [2, 0, 0, 0], dynamic = False, vsize = 1, vcapacity = 4,
          curData = StatData\<rparr>"
    by code_simp
  have c: "elems \<lparr>statData = [2, 1, 0, 0::int], dynamic = False, vsize = 2,
          vcapacity = 4, curData = StatData\<rparr> = [2, 1]"
    by (simp add: elems_def data_def)
  have e: "elems \<lparr>statData = [2, 0, 0, 0::int], dynamic = False, vsize = 1,
          vcapacity = 4, curData = StatData\<rparr> = [2]"
    by (simp add: elems_def data_def)
  have o: "operator_assign 4 4 0
     [0 \<mapsto> \<lparr>statData = [1, 0, 0, 0::int], dynamic = False, vsize = 1, vcapacity = 4,
            curData = StatData\<rparr>,
      1 \<mapsto> \<lparr>statData = [2, 0, 0, 0], dynamic = False, vsize = 1, vcapacity = 4,
            curData = StatData\<rparr>] 0 1 =
     Inr ([0 \<mapsto> \<lparr>statData = [1, 0, 0, 0::int], dynamic = False, vsize = 1, vcapacity = 4,
                 curData = StatData\<rparr>,
           1 \<mapsto> \<lparr>statData = [2, 0, 0, 0], dynamic = False, vsize = 1, vcapacity = 4,
                 curData = StatData\<rparr>]
          (0 \<mapsto> \<lparr>statData = [2, 1, 0, 0], dynamic = False, vsize = 2, vcapacity = 4,
                 curData = StatData\<rparr>))"
    using assign_from_eval by (simp add: operator_assign_def)
  from a b o c e show ?thesis by blast
qed

text \<open>
  Claim C5. On every container that satisfies the invariants of the data model the range insert
  agrees with the one-at-a-time insertion (\<open>insert_range_stray_as_one_at_a_time\<close>). It does
  not on the container that five \<^verbatim>\<open>push_back\<close> calls, \<^verbatim>\<open>clear()\<close> and four more \<^verbatim>\<open>push_back\<close>
  calls leave with \<open>StaticCapacity = 4\<close>: \<open>[6, 7, 8, 9]\<close> in the inline array with the
  capacity 7 that \<^verbatim>\<open>clear()\<close> did not reset. A range insert of four elements at \<^verbatim>\<open>end()\<close> finds \<open>8 > 7\<close>, grows
  and leaves \<open>[6, ..., 13]\<close>; inserted one at a time, the first element finds \<open>4 \<noteq> 7\<close>, does not
  grow and is written to \<^verbatim>\<open>_statData[4]\<close>, past the inline array. A range insert of one
  element writes there as well.
\<close>

theorem range_insert_after_clear_departs:
  "push_all 4 0 (VLVector 4 (0::int)) [1, 2, 3, 4, 5] =
     Inr \<lparr>statData = [1, 2, 3, 4], dynamic = True, vsize = 5, vcapacity = 7,
          curData = Heap ([1, 2, 3, 4, 5] @ replicate 23 0)\<rparr> \<and>
   clear \<lparr>statData = [1, 2, 3, 4], dynamic = True, vsize = 5, vcapacity = 7,
          curData = Heap ([1, 2, 3, 4, 5] @ replicate 23 (0::int))\<rparr> =
     Inr \<lparr>statData = [1, 2, 3, 4], dynamic = False, vsize = 0, vcapacity = 7,
          curData = StatData\<rparr> \<and>
   push_all 4 0 \<lparr>statData = [1, 2, 3, 4::int], dynamic = False, vsize = 0, vcapacity = 7,
                curData = StatData\<rparr> [6, 7, 8, 9] =
     Inr \<lparr>statData = [6, 7, 8, 9], dynamic = False, vsize = 4, vcapacity = 7,
          curData = StatData\<rparr> \<and>
   insert_range_stray junk 4 4 0
     \<lparr>statData = [6, 7, 8, 9::int], dynamic = False, vsize = 4, vcapacity = 7,
      curData = StatData\<rparr> 4 [10, 11, 12, 13] =
     Inr (\<lparr>statData = [6, 7, 8, 9], dynamic = True, vsize = 8, vcapacity = 13,
           curData = Heap ([6, 7, 8, 9, 10, 11, 12, 13] @ replicate 44 0)\<rparr>, 4) \<and>
   elems \<lparr>statData = [6, 7, 8, 9], dynamic = True, vsize = 8, vcapacity = 13,
          curData = Heap ([6, 7, 8, 9, 10, 11, 12, 13] @ replicate 44 (0::int))\<rparr> =
     [6, 7, 8, 9, 10, 11, 12, 13] \<and>
   insert_one_at_a_time 4 0
     \<lparr>statData = [6, 7, 8, 9::int], dynamic = False, vsize = 4, vcapacity = 7,
      curData = StatData\<rparr> 4 [10, 11, 12, 13] = Inl UndefinedBehaviour \<and>
   insert_range_stray junk 4 4 0
     \<lparr>statData = [6, 7, 8, 9::int], dynamic = False, vsize = 4, vcapacity = 7,
      curData = StatData\<rparr> 4 [10] = Inl UndefinedBehaviour"
  by code_simp

text \<open>
  Claim C9. On every container that satisfies the invariants of the data model an insert
  followed by an erase at the same position gives back the original sequence
  (\<open>insert_then_erase\<close>). On the container \<open>[6, 7, 8, 9]\<close> with the capacity 7 that
  \<^verbatim>\<open>clear()\<close> did not reset (\<open>StaticCapacity = 4\<close>) the insert finds \<open>4 \<noteq> 7\<close>, does not
  grow, and writes \<^verbatim>\<open>data()[4]\<close>, past the inline array: at \<^verbatim>\<open>begin()\<close> by shifting the last
  element there, at \<^verbatim>\<open>end()\<close> by storing the new value there.
\<close>

theorem insert_after_clear_writes_past_inline_array:
  "push_all 4 0 (VLVector 4 (0::int)) [1, 2, 3, 4, 5] =
     Inr \<lparr>statData = [1, 2, 3, 4], dynamic = True, vsize = 5, vcapacity = 7,
          curData = Heap ([1, 2, 3, 4, 5] @ replicate 23 0)\<rparr> \<and>
   clear \<lparr>statData = [1, 2, 3, 4], dynamic = True, vsize = 5, vcapacity = 7,
          curData = Heap ([1, 2, 3, 4, 5] @ replicate 23 (0::int))\<rparr> =
     Inr \<lparr>statData = [1, 2, 3, 4], dynamic = False, vsize = 0, vcapacity = 7,
          curData = StatData\<rparr> \<and>
   push_all 4 0 \<lparr>statData = [1, 2, 3, 4::int], dynamic = False, vsize = 0, vcapacity = 7,
                curData = StatData\<rparr> [6, 7, 8, 9] =
     Inr \<lparr>statData = [6, 7, 8, 9], dynamic = False, vsize = 4, vcapacity = 7,
          curData = StatData\<rparr> \<and>
   insert_single 4 0
     \<lparr>statData = [6, 7, 8, 9::int], dynamic = False, vsize = 4, vcapacity = 7,
      curData = StatData\<rparr> 0 5 = Inl UndefinedBehaviour \<and>
   insert_single 4 0
     \<lparr>statData = [6, 7, 8, 9::int], dynamic = False, vsize = 4, vcapacity = 7,
      curData = StatData\<rparr> 4 5 = Inl UndefinedBehaviour"
  by code_simp

end
